theory Spec2Isabelle
  imports Complex_Main "HOL-Library.Multiset" "HOL-Library.List_Lexorder" "HOL-Library.Product_Lexorder"
begin

section \<open>Action Graph Games: the data model of agg.cc\<close>

text \<open>
  Node indices, neighbour lists and configuration entries are C++ \<open>int\<close>s read from the
  game file; they are modelled as \<open>int\<close>.  Loop counters, player indices and positions in
  a vector are \<open>nat\<close>.  A \<open>std::vector\<close> is a list; \<open>operator[]\<close> out of range is
  undefined behaviour in C++ and is left unspecified here (\<open>xs ! i\<close>), so every theorem
  that reads a vector states the range it needs.
\<close>

type_synonym config = "int list"

text \<open>
  Modelled from the spec: the scalar type \<open>AggNumber\<close> is declared in agg.h, which is
  not among the sources.  The spec asks for exact rational arithmetic, so it is \<open>rat\<close>.
\<close>

type_synonym AggNumber = rat

datatype error =
    NotAscending nat          \<comment> \<open>"Action set for player i is not in ascending order"\<close>
  | CycleAt int               \<comment> \<open>"ERROR: cycle of projected nodes at Node"\<close>
  | TypeMismatch int int      \<comment> \<open>"ERROR: projection type mismatch: Node .. and its neighbor .."\<close>
  | OutOfRange int            \<comment> \<open>a vector read outside its bounds (undefined behaviour in C++)\<close>
  | MissingConfig config nat  \<comment> \<open>getPurePayoff: "unable to find the following configuration"\<close>
  | BadCount                  \<comment> \<open>"Error reading the integer number of configuration-value pairs"\<close>
  | BadInput                  \<comment> \<open>"ERROR: bad input"\<close>
  | ExpectedBracket           \<comment> \<open>"ERROR: [ expected" or "] expected"\<close>
  | BadElement nat            \<comment> \<open>"ERROR trying to read element #j of the configuration"\<close>
  | BadUtility config         \<comment> \<open>"Error trying to read the utility value for configuration"\<close>
  | Overwriting config        \<comment> \<open>"ERROR: overwriting utility at [..]"\<close>
  | NotSpecified config       \<comment> \<open>"ERROR: utility at [..] not specified."\<close>
  | NoPayoffs                 \<comment> \<open>\<open>begin()\<close> of an empty payoff table dereferenced\<close>
  | AssertFailed              \<comment> \<open>a failed \<open>assert\<close>\<close>
  | NotEnoughPayoffs          \<comment> \<open>"Error in game file: not enough payoffs"\<close>
  | BadPayoffType nat         \<comment> \<open>"Error reading the integer type of the utility function"\<close>
  | UnknownPayoffType int     \<comment> \<open>"Unknown payoff type"\<close>

subsection \<open>The constructor's check of the action sets (agg.cc, lines 63 to 74)\<close>

text \<open>
  The constructor copies the action sets, sorts every copy with \<open>std::sort\<close> and throws
  when the sorted copy differs from the original; otherwise the pair of the sorted set and
  the player is appended to \<open>t\<close>.
\<close>

fun sortedActionSets_loop ::
  "int list list \<Rightarrow> nat list \<Rightarrow> (int list \<times> nat) list \<Rightarrow> error + (int list \<times> nat) list" where
  "sortedActionSets_loop actionSets [] t = Inr t"
| "sortedActionSets_loop actionSets (i # rest) t =
     (if sort (actionSets ! i) \<noteq> actionSets ! i then Inl (NotAscending i)
      else sortedActionSets_loop actionSets rest (t @ [(sort (actionSets ! i), i)]))"

definition AGG_checkActionSets :: "nat \<Rightarrow> int list list \<Rightarrow> error + (int list \<times> nat) list" where
  "AGG_checkActionSets numPlayers actionSets =
     sortedActionSets_loop actionSets [0..<numPlayers] []"

subsection \<open>Configuration tries\<close>

text \<open>
  Modelled from the spec: \<open>trie_map\<close> (trie_map.h is not among the sources).  A trie maps
  configuration keys to values and is iterated in key order, so it is a list of key-value
  pairs kept in ascending (lexicographic) key order.  \<open>insert\<close> behaves as the call sites
  in agg.cc use it: it leaves an existing key alone and reports through the \<open>second\<close> of
  its result whether the key was new.  \<open>+=\<close> with a pair adds the weight to an existing
  key and inserts the pair otherwise.  \<open>multiply\<close> composes every pair of keys position by
  position and accumulates the product of the weights; \<open>inner_prod\<close> sums weight times
  payoff, a key missing from the payoff table contributing zero.
\<close>

type_synonym 'v trie_map = "(config \<times> 'v) list"
type_synonym aggdistrib = "AggNumber trie_map"
type_synonym aggpayoff = "AggNumber trie_map"

definition trie_find :: "'v trie_map \<Rightarrow> config \<Rightarrow> 'v option" where
  "trie_find t k = map_of t k"

fun trie_insert :: "'v trie_map \<Rightarrow> config \<Rightarrow> 'v \<Rightarrow> 'v trie_map" where
  "trie_insert [] k v = [(k, v)]"
| "trie_insert ((k', v') # t) k v =
     (if k = k' then (k', v') # t
      else if k < k' then (k, v) # (k', v') # t
      else (k', v') # trie_insert t k v)"

fun trie_add :: "aggdistrib \<Rightarrow> config \<Rightarrow> AggNumber \<Rightarrow> aggdistrib" where
  "trie_add [] k w = [(k, w)]"
| "trie_add ((k', w') # t) k w =
     (if k = k' then (k', w' + w) # t
      else if k < k' then (k, w) # (k', w') # t
      else (k', w') # trie_add t k w)"


text \<open>The total weight held by a distribution.\<close>

definition trie_total :: "aggdistrib \<Rightarrow> AggNumber" where
  "trie_total t = sum_list (map snd t)"

subsection \<open>Projection functions\<close>

text \<open>
  Modelled from the spec: the projection-function variants (proj_func.h is not among the
  sources), with the value of each on a multiset of action nodes as the table of the spec
  gives it.  Equality of two variants is equality of tag and parameters.
\<close>

datatype proj_func =
    proj_func_SUM
  | proj_func_EXIST
  | proj_func_MATCH int
  | proj_func_SUM_MOD int
  | proj_func_POWER nat

fun proj_apply :: "proj_func \<Rightarrow> int multiset \<Rightarrow> int" where
  "proj_apply proj_func_SUM M = int (size M)"
| "proj_apply proj_func_EXIST M = (if 1 \<le> size M then 1 else 0)"
| "proj_apply (proj_func_MATCH t) M = (if t \<in># M then 1 else 0)"
| "proj_apply (proj_func_SUM_MOD m) M = int (size M) mod m"
| "proj_apply (proj_func_POWER k) M = int (size M) ^ k"

text \<open>
  The binary call \<open>(*f)(a, b)\<close> of a projection function, which composes two entries of
  a configuration, is defined in proj_func.h as well, and the spec does not give it.  It is
  a parameter \<open>cmp\<close> of every function below that composes configurations.
\<close>

type_synonym composer = "proj_func \<Rightarrow> int \<Rightarrow> int \<Rightarrow> int"

definition compose_keys :: "composer \<Rightarrow> proj_func list \<Rightarrow> nat \<Rightarrow> config \<Rightarrow> config \<Rightarrow> config" where
  "compose_keys cmp projF numNei ka kb =
     map (\<lambda>i. cmp (projF ! i) (ka ! i) (kb ! i)) [0..<numNei]"

definition multiply ::
  "composer \<Rightarrow> aggdistrib \<Rightarrow> aggdistrib \<Rightarrow> nat \<Rightarrow> proj_func list \<Rightarrow> aggdistrib" where
  "multiply cmp a b numNei projF =
     fold (\<lambda>(ka, wa) c.
             fold (\<lambda>(kb, wb) c'. trie_add c' (compose_keys cmp projF numNei ka kb) (wa * wb)) b c)
          a []"

definition inner_prod :: "aggdistrib \<Rightarrow> aggpayoff \<Rightarrow> AggNumber" where
  "inner_prod a U =
     sum_list (map (\<lambda>(k, w). w * (case trie_find U k of Some u \<Rightarrow> u | None \<Rightarrow> 0)) a)"

subsection \<open>Ancestors of a function node (\<open>AGG::getAn\<close>)\<close>

text \<open>
  \<open>getAn\<close> walks the neighbours of a function node depth first.  \<open>dest\<close> is the multiset
  passed by reference, \<open>path\<close> the stack of the function nodes being visited; the loop over
  the neighbours of \<open>Node\<close> is \<open>getAn_loop\<close>.  A node index outside \<open>neighb\<close> or
  \<open>projTypes\<close> is an out-of-bounds read in C++; here it is the result \<open>OutOfRange\<close>.
\<close>

definition unvisited :: "int list list \<Rightarrow> nat \<Rightarrow> int list \<Rightarrow> nat" where
  "unvisited neighb S path = card ({int S ..< int (length neighb)} - set path)"

lemma unvisited_push:
  assumes "int S \<le> Node" "Node < int (length neighb)" "Node \<notin> set path"
  shows "unvisited neighb S (path @ [Node]) < unvisited neighb S path"
proof -
  let ?A = "{int S ..< int (length neighb)} - set path"
  have eq: "{int S ..< int (length neighb)} - set (path @ [Node]) = ?A - {Node}"
    unfolding set_append by (simp only: list.set) blast
  have mem: "Node \<in> ?A" using assms by simp
  have "card (?A - {Node}) < card ?A"
    by (rule card_Diff1_less) (use mem in simp_all)
  then show ?thesis
    unfolding unvisited_def eq .
qed

function getAn ::
    "int list list \<Rightarrow> proj_func list \<Rightarrow> nat \<Rightarrow> int multiset \<Rightarrow> int \<Rightarrow> int list \<Rightarrow> error + int multiset"
  and getAn_loop ::
    "int list list \<Rightarrow> proj_func list \<Rightarrow> nat \<Rightarrow> int multiset \<Rightarrow> int \<Rightarrow> int list \<Rightarrow> int list
       \<Rightarrow> error + int multiset" where
  "getAn neighb projTypes S dest Node path =
     (if Node < int S then Inr (add_mset Node dest)
      else if Node \<in> set path then Inl (CycleAt Node)
      else if length neighb \<le> nat Node \<or> length projTypes \<le> nat (Node - int S)
        then Inl (OutOfRange Node)
      else getAn_loop neighb projTypes S dest Node (neighb ! nat Node) (path @ [Node]))"
| "getAn_loop neighb projTypes S dest Node [] path = Inr dest"
| "getAn_loop neighb projTypes S dest Node (x # rest) path =
     (if int S \<le> x \<and> length projTypes \<le> nat (x - int S) then Inl (OutOfRange x)
      else if int S \<le> x \<and> projTypes ! nat (x - int S) \<noteq> projTypes ! nat (Node - int S)
        then Inl (TypeMismatch Node x)
      else (case getAn neighb projTypes S dest x path of
              Inl e \<Rightarrow> Inl e
            | Inr dest' \<Rightarrow> getAn_loop neighb projTypes S dest' Node rest path))"
  by pat_completeness auto
termination
proof (relation "inv_image (less_than <*lex*> less_than)
    (\<lambda>x. case x of
       Inl (neighb, projTypes, S, dest, Node, path) \<Rightarrow> (unvisited neighb S path, 0)
     | Inr (neighb, projTypes, S, dest, Node, todo, path) \<Rightarrow>
         (unvisited neighb S path, Suc (length todo)))", goal_cases)
  case 1
  show ?case by (intro wf_inv_image wf_lex_prod wf_less_than)
next
  case (2 neighb projTypes S dest Node path)
  from 2 have a: "int S \<le> Node" by simp
  from 2 have "nat Node < length neighb" by simp
  then have b: "Node < int (length neighb)" by simp
  from 2 have c: "Node \<notin> set path" by simp
  from a b c have "unvisited neighb S (path @ [Node]) < unvisited neighb S path"
    by (rule unvisited_push)
  then show ?case by simp
next
  case 3
  show ?case by simp
next
  case 4
  show ?case by simp
qed

declare getAn.simps [simp del]

text \<open>
  The edges that \<open>getAn\<close> follows: from a function node (an index from \<open>S\<close> on, inside
  \<open>neighb\<close>) to each of its neighbours.  A node is on a cycle when it reaches itself by at
  least one edge.
\<close>

definition fedges :: "int list list \<Rightarrow> nat \<Rightarrow> (int \<times> int) set" where
  "fedges neighb S = {(a, b). int S \<le> a \<and> nat a < length neighb \<and> b \<in> set (neighb ! nat a)}"

text \<open>
  The spec's ancestors of a function node, stated without \<open>getAn\<close>.  A walk from a node
  \<open>g\<close> down to an action node \<open>a\<close> is the list of the neighbour positions taken, through
  function nodes only, until an action node (an index below \<open>S\<close>) is met; \<open>npaths\<close> is the
  number of the walks, the multiplicity of \<open>a\<close> among the ancestors of \<open>g\<close>.
\<close>

fun walk :: "int list list \<Rightarrow> nat \<Rightarrow> int \<Rightarrow> nat list \<Rightarrow> int \<Rightarrow> bool" where
  "walk neighb S g [] a \<longleftrightarrow> g < int S \<and> g = a"
| "walk neighb S g (i # ps) a \<longleftrightarrow>
     int S \<le> g \<and> nat g < length neighb \<and> i < length (neighb ! nat g)
     \<and> walk neighb S (neighb ! nat g ! i) ps a"

definition npaths :: "int list list \<Rightarrow> nat \<Rightarrow> int \<Rightarrow> int \<Rightarrow> nat" where
  "npaths neighb S g a = card {ps. walk neighb S g ps a}"

text \<open>
  The neighbours of every function node are nodes of the game: with \<open>P\<close> function nodes,
  indices below \<open>S + P\<close>.
\<close>

definition nodes_in_range :: "int list list \<Rightarrow> nat \<Rightarrow> nat \<Rightarrow> bool" where
  "nodes_in_range neighb S P \<longleftrightarrow>
     (\<forall>g \<in> {S ..< S + P}. \<forall>x \<in> set (neighb ! g). x < int (S + P))"

text \<open>
  The edges between two function nodes that carry different projection functions, which
  is what the consistency check of \<open>getAn\<close> compares.
\<close>

definition mismatch :: "int list list \<Rightarrow> proj_func list \<Rightarrow> nat \<Rightarrow> (int \<times> int) set" where
  "mismatch neighb projTypes S =
     {(a, b). (a, b) \<in> fedges neighb S \<and> int S \<le> b
        \<and> projTypes ! nat (b - int S) \<noteq> projTypes ! nat (a - int S)}"

subsection \<open>Projections (\<open>AGG::setProjections\<close>)\<close>

text \<open>The first loop of \<open>setProjections\<close>: the ancestors of every function node.\<close>

fun setProjections_an ::
  "int list list \<Rightarrow> proj_func list \<Rightarrow> nat \<Rightarrow> nat list \<Rightarrow> error + int multiset list" where
  "setProjections_an neighb projTypes S [] = Inr []"
| "setProjections_an neighb projTypes S (i # rest) =
     (case getAn neighb projTypes S {#} (int S + int i) [] of
        Inl e \<Rightarrow> Inl e
      | Inr a \<Rightarrow> (case setProjections_an neighb projTypes S rest of
                    Inl e \<Rightarrow> Inl e
                  | Inr as \<Rightarrow> Inr (a # as)))"

text \<open>
  The body of the innermost loop: the contribution of action \<open>j\<close> of player \<open>i\<close> to
  position \<open>k\<close> of the configuration of \<open>Node\<close>.  \<open>equal_range\<close> on the ancestors gives
  the sub-multiset of the elements equal to the action's node.
\<close>

definition proj_entry ::
  "nat \<Rightarrow> int list list \<Rightarrow> int list list \<Rightarrow> proj_func list \<Rightarrow> int multiset list
     \<Rightarrow> nat \<Rightarrow> nat \<Rightarrow> nat \<Rightarrow> nat \<Rightarrow> int" where
  "proj_entry S AS neighb projTypes an Node i j k =
     (if AS ! i ! j = neighb ! Node ! k then 1
      else if int S \<le> neighb ! Node ! k then
        proj_apply (projTypes ! nat (neighb ! Node ! k - int S))
          (filter_mset (\<lambda>x. x = AS ! i ! j) (an ! nat (neighb ! Node ! k - int S)))
      else 0)"

definition setProjections ::
  "nat \<Rightarrow> nat \<Rightarrow> nat \<Rightarrow> int list list \<Rightarrow> int list list \<Rightarrow> proj_func list
     \<Rightarrow> error + (aggdistrib list list \<times> config list list list)" where
  "setProjections N S P AS neighb projTypes =
     (case setProjections_an neighb projTypes S [0..<P] of
        Inl e \<Rightarrow> Inl e
      | Inr an \<Rightarrow>
          (let proj = map (\<lambda>Node. map (\<lambda>i. map (\<lambda>j.
                        map (proj_entry S AS neighb projTypes an Node i j)
                          [0..<length (neighb ! Node)])
                        [0..<length (AS ! i)]) [0..<N]) [0..<S];
               projS = map (\<lambda>Node. map (\<lambda>i.
                         fold (\<lambda>j d. trie_insert d (proj ! Node ! i ! j) 1)
                           [0..<length (AS ! i)] []) [0..<N]) [0..<S]
           in Inr (projS, proj)))"

subsection \<open>The order of the players (\<open>AGG::initPorder\<close>)\<close>



subsection \<open>The game object and the payoff oracle\<close>

text \<open>
  The fields of \<open>AGG\<close> that the oracle reads or writes.  \<open>projectedStrat\<close> and \<open>Pr\<close>
  are the scratch buffers that every oracle call rewrites, so an oracle call returns the
  updated object together with its value.
\<close>

record AGG =
  numPlayers :: nat
  numActionNodes :: nat
  actions :: "nat list"
  strategyOffset :: "nat list"
  actionSets :: "int list list"
  neighbors :: "int list list"
  payoffs :: "aggpayoff list"
  projection :: "config list list list"
  projectedStrat :: "aggdistrib list list"
  projFunctions :: "proj_func list list"
  Porder :: "nat list list list"
  Pr :: "aggdistrib list"

type_synonym StrategyProfile = "AggNumber list"

text \<open>
  Modelled from the spec: \<open>firstAction\<close> (agg.h is not among the sources) is the offset
  of the segment of player \<open>i\<close> in a strategy profile, which the constructor stores in
  \<open>strategyOffset\<close>.
\<close>

definition firstAction :: "AGG \<Rightarrow> nat \<Rightarrow> nat" where
  "firstAction g i = strategyOffset g ! i"

text \<open>
  \<open>doProjection(Node, i, s)\<close>: \<open>s\<close> points at the segment of player \<open>i\<close>.  Only the
  entries that are strictly positive are added.
\<close>

definition doProjection_player :: "AGG \<Rightarrow> nat \<Rightarrow> nat \<Rightarrow> AggNumber list \<Rightarrow> AGG" where
  "doProjection_player g Node i s =
     g\<lparr>projectedStrat := (projectedStrat g)[Node := (projectedStrat g ! Node)[i :=
         fold (\<lambda>j d. if s ! j > 0 then trie_add d (projection g ! Node ! i ! j) (s ! j) else d)
           [0..<actions g ! i] []]]\<rparr>"

definition doProjection :: "AGG \<Rightarrow> nat \<Rightarrow> StrategyProfile \<Rightarrow> AGG" where
  "doProjection g Node s =
     fold (\<lambda>i g'. doProjection_player g' Node i (drop (firstAction g' i) s))
       [0..<numPlayers g] g"

text \<open>
  \<open>computeP(player, act, player2, act2)\<close>; the header gives \<open>player2\<close> and \<open>act2\<close>
  the default \<open>-1\<close>, which is what \<open>getV\<close> passes.
\<close>

definition computeP :: "composer \<Rightarrow> AGG \<Rightarrow> nat \<Rightarrow> nat \<Rightarrow> int \<Rightarrow> int \<Rightarrow> AGG" where
  "computeP cmp g player act player2 act2 =
     (let Node = nat (actionSets g ! player ! act);
          numNei = length (neighbors g ! Node);
          Pr0 = (Pr g)[0 := trie_insert [] (projection g ! Node ! player ! act) 1]
      in g\<lparr>Pr := fold (\<lambda>k P. P[k :=
           (if int (Porder g ! player ! act ! k) = player2 then
              (if act2 = - 1 then P ! (k - 1)
               else multiply cmp (P ! (k - 1))
                      (trie_insert [] (projection g ! Node ! nat player2 ! nat act2) 1)
                      numNei (projFunctions g ! Node))
            else multiply cmp (P ! (k - 1))
                   (projectedStrat g ! Node ! (Porder g ! player ! act ! k))
                   numNei (projFunctions g ! Node))])
          [1..<numPlayers g] Pr0\<rparr>)"

text \<open>
  \<open>getV\<close> reads the action's node with \<open>at\<close>, which throws outside the vectors; that
  is the only check it makes.
\<close>

definition getV ::
  "composer \<Rightarrow> AGG \<Rightarrow> nat \<Rightarrow> nat \<Rightarrow> StrategyProfile \<Rightarrow> error + (AggNumber \<times> AGG)" where
  "getV cmp g player act s =
     (if player < length (actionSets g) \<and> act < length (actionSets g ! player) then
        (let g1 = doProjection g (nat (actionSets g ! player ! act)) s;
             g2 = computeP cmp g1 player act (- 1) (- 1)
         in Inr (inner_prod (Pr g2 ! (numPlayers g2 - 1))
                   (payoffs g2 ! nat (actionSets g2 ! player ! act)), g2))
      else Inl (OutOfRange (int act)))"

definition getJ ::
  "composer \<Rightarrow> AGG \<Rightarrow> nat \<Rightarrow> nat \<Rightarrow> nat \<Rightarrow> nat \<Rightarrow> StrategyProfile \<Rightarrow> AggNumber \<times> AGG" where
  "getJ cmp g player1 act1 player2 act2 s =
     (let g1 = doProjection g (nat (actionSets g ! player1 ! act1)) s;
          g2 = computeP cmp g1 player1 act1 (int player2) (int act2)
      in (inner_prod (Pr g2 ! (numPlayers g2 - 1))
            (payoffs g2 ! nat (actionSets g2 ! player1 ! act1)), g2))"

fun getMixedPayoff_loop ::
  "composer \<Rightarrow> AGG \<Rightarrow> nat \<Rightarrow> StrategyProfile \<Rightarrow> nat list \<Rightarrow> AggNumber
     \<Rightarrow> error + (AggNumber \<times> AGG)" where
  "getMixedPayoff_loop cmp g player s [] result = Inr (result, g)"
| "getMixedPayoff_loop cmp g player s (act # rest) result =
     (if s ! (act + firstAction g player) > 0 then
        (case getV cmp g player act s of
           Inl e \<Rightarrow> Inl e
         | Inr (v, g') \<Rightarrow>
             getMixedPayoff_loop cmp g' player s rest
               (result + s ! (act + firstAction g player) * v))
      else getMixedPayoff_loop cmp g player s rest result)"

definition getMixedPayoff ::
  "composer \<Rightarrow> AGG \<Rightarrow> nat \<Rightarrow> StrategyProfile \<Rightarrow> error + (AggNumber \<times> AGG)" where
  "getMixedPayoff cmp g player s =
     (if player < numPlayers g
      then getMixedPayoff_loop cmp g player s [0..<actions g ! player] 0
      else Inl AssertFailed)"

fun getPayoffVector_loop ::
  "composer \<Rightarrow> AGG \<Rightarrow> nat \<Rightarrow> StrategyProfile \<Rightarrow> nat list \<Rightarrow> AggNumber list
     \<Rightarrow> error + (AggNumber list \<times> AGG)" where
  "getPayoffVector_loop cmp g player s [] dest = Inr (dest, g)"
| "getPayoffVector_loop cmp g player s (act # rest) dest =
     (case getV cmp g player act s of
        Inl e \<Rightarrow> Inl e
      | Inr (v, g') \<Rightarrow> getPayoffVector_loop cmp g' player s rest (dest[act := v]))"

definition getPayoffVector ::
  "composer \<Rightarrow> AGG \<Rightarrow> AggNumber list \<Rightarrow> nat \<Rightarrow> StrategyProfile
     \<Rightarrow> error + (AggNumber list \<times> AGG)" where
  "getPayoffVector cmp g dest player s =
     (if player < numPlayers g
      then getPayoffVector_loop cmp g player s [0..<actions g ! player] dest
      else Inl AssertFailed)"



text \<open>
  \<open>getMaxPayoff\<close> and \<open>getMinPayoff\<close> start from the first entry of the table of action
  node 0 and then run over the tables of the action nodes from 1 on.
\<close>

definition getMaxPayoff :: "AGG \<Rightarrow> error + AggNumber" where
  "getMaxPayoff g =
     (if 0 < numActionNodes g then
        (case payoffs g ! 0 of
           [] \<Rightarrow> Inl NoPayoffs
         | (k, u) # rest \<Rightarrow>
             Inr (fold (\<lambda>i result. fold (\<lambda>(k', u') r. max r u') (payoffs g ! i) result)
                    [1..<numActionNodes g] u))
      else Inl AssertFailed)"

definition getMinPayoff :: "AGG \<Rightarrow> error + AggNumber" where
  "getMinPayoff g =
     (if 0 < numActionNodes g then
        (case payoffs g ! 0 of
           [] \<Rightarrow> Inl NoPayoffs
         | (k, u) # rest \<Rightarrow>
             Inr (fold (\<lambda>i result. fold (\<lambda>(k', u') r. min r u') (payoffs g ! i) result)
                    [1..<numActionNodes g] u))
      else Inl AssertFailed)"

subsection \<open>Reading payoff tables (\<open>AGG::makeMAPPINGpayoff\<close>)\<close>




















subsection \<open>Building a game from a file (\<open>AGG::makeAGG\<close>)\<close>

text \<open>
  \<open>makeAGG\<close> is modelled from the point where the header of the file has been read:
  the number \<open>n\<close> of players, the numbers \<open>S\<close> and \<open>P\<close> of action and function
  nodes, the sizes \<open>sizes\<close> of the action sets (the vector \<open>size\<close>), the action sets,
  the neighbour lists and the projection types.  The rest of the stream, the payoff
  section, is the token list \<open>toks\<close>.
\<close>












subsection \<open>An example game\<close>


definition coordination_game :: AGG where
  "coordination_game =
     \<lparr>numPlayers = 2, numActionNodes = 2, actions = [2, 2], strategyOffset = [0, 2, 4],
      actionSets = [[0, 1], [0, 1]], neighbors = [[0, 1], [0, 1]],
      payoffs = [[([0, 2], 0), ([1, 1], 0), ([2, 0], 2)],
                 [([0, 2], 2), ([1, 1], 0), ([2, 0], 0)]],
      projection = [[[[1, 0], [0, 1]], [[1, 0], [0, 1]]], [[[1, 0], [0, 1]], [[1, 0], [0, 1]]]],
      projectedStrat = [[[([0, 1], 1), ([1, 0], 1)], [([0, 1], 1), ([1, 0], 1)]],
                        [[([0, 1], 1), ([1, 0], 1)], [([0, 1], 1), ([1, 0], 1)]]],
      projFunctions = [[proj_func_SUM, proj_func_SUM], [proj_func_SUM, proj_func_SUM]],
      Porder = [[[0, 1], [0, 1]], [[1, 0], [1, 0]]],
      Pr = [[([0, 1], 1)], [([0, 2], 1), ([1, 1], 1)]]\<rparr>"

text \<open>The composer used in examples: every projection function adds.\<close>

definition cmp_add :: composer where
  "cmp_add f a b = a + b"

subsection \<open>Well-formed games and closed forms of the scratch buffers\<close>

text \<open>
  The shape of the tables of a game that \<open>makeAGG\<close> builds from a file with valid
  indices: every vector has the length its index set asks for, every action is an action
  node, and every order of the players is a permutation that starts with the player.
\<close>

definition wf_AGG :: "AGG \<Rightarrow> bool" where
  "wf_AGG g \<longleftrightarrow>
     0 < numPlayers g \<and>
     length (actions g) = numPlayers g \<and>
     length (actionSets g) = numPlayers g \<and>
     length (Porder g) = numPlayers g \<and>
     length (Pr g) = numPlayers g \<and>
     length (strategyOffset g) = Suc (numPlayers g) \<and>
     (\<forall>p \<le> numPlayers g. strategyOffset g ! p = sum_list (take p (actions g))) \<and>
     numActionNodes g \<le> length (neighbors g) \<and>
     length (payoffs g) = numActionNodes g \<and>
     length (projection g) = numActionNodes g \<and>
     length (projectedStrat g) = numActionNodes g \<and>
     length (projFunctions g) = numActionNodes g \<and>
     (\<forall>v < numActionNodes g.
        length (projection g ! v) = numPlayers g \<and>
        length (projectedStrat g ! v) = numPlayers g \<and>
        length (projFunctions g ! v) = length (neighbors g ! v) \<and>
        (\<forall>p < numPlayers g.
           length (projection g ! v ! p) = actions g ! p \<and>
           (\<forall>a < actions g ! p.
              length (projection g ! v ! p ! a) = length (neighbors g ! v)))) \<and>
     (\<forall>p < numPlayers g.
        length (actionSets g ! p) = actions g ! p \<and>
        length (Porder g ! p) = actions g ! p \<and>
        (\<forall>a < actions g ! p.
           0 \<le> actionSets g ! p ! a \<and> actionSets g ! p ! a < int (numActionNodes g) \<and>
           mset (Porder g ! p ! a) = mset [0..<numPlayers g] \<and>
           hd (Porder g ! p ! a) = p))"

text \<open>
  What \<open>doProjection\<close> leaves in \<open>projectedStrat[Node][i]\<close>, and what \<open>computeP\<close>
  without a second player leaves in \<open>Pr[k]\<close>, written without the buffers.
\<close>

definition projected :: "AGG \<Rightarrow> nat \<Rightarrow> nat \<Rightarrow> AggNumber list \<Rightarrow> aggdistrib" where
  "projected g Node i s =
     fold (\<lambda>j d. if s ! j > 0 then trie_add d (projection g ! Node ! i ! j) (s ! j) else d)
       [0..<actions g ! i] []"

fun Pr_chain :: "composer \<Rightarrow> AGG \<Rightarrow> nat \<Rightarrow> nat \<Rightarrow> StrategyProfile \<Rightarrow> nat \<Rightarrow> aggdistrib" where
  "Pr_chain cmp g player act s 0 =
     trie_insert [] (projection g ! nat (actionSets g ! player ! act) ! player ! act) 1"
| "Pr_chain cmp g player act s (Suc k) =
     multiply cmp (Pr_chain cmp g player act s k)
       (projected g (nat (actionSets g ! player ! act)) (Porder g ! player ! act ! Suc k)
          (drop (firstAction g (Porder g ! player ! act ! Suc k)) s))
       (length (neighbors g ! nat (actionSets g ! player ! act)))
       (projFunctions g ! nat (actionSets g ! player ! act))"

definition getV_value :: "composer \<Rightarrow> AGG \<Rightarrow> nat \<Rightarrow> nat \<Rightarrow> StrategyProfile \<Rightarrow> AggNumber" where
  "getV_value cmp g player act s =
     inner_prod (Pr_chain cmp g player act s (numPlayers g - 1))
       (payoffs g ! nat (actionSets g ! player ! act))"

text \<open>
  \<open>scratch_of g g'\<close>: the game \<open>g'\<close> is \<open>g\<close> up to the contents of the two scratch
  buffers.
\<close>

definition scratch_of :: "AGG \<Rightarrow> AGG \<Rightarrow> bool" where
  "scratch_of g g' \<longleftrightarrow> g' = g\<lparr>projectedStrat := projectedStrat g', Pr := Pr g'\<rparr>"


text \<open>
  A profile cut to the game's total number of actions, with every negative entry replaced
  by zero.
\<close>

definition clean_profile :: "AGG \<Rightarrow> StrategyProfile \<Rightarrow> StrategyProfile" where
  "clean_profile g s = map (max 0) (take (sum_list (actions g)) s)"

subsection \<open>Pure profiles as mixed profiles\<close>





text \<open>The keys of a trie.\<close>

definition keys :: "'v trie_map \<Rightarrow> config set" where
  "keys t = fst ` set t"



section \<open>The constructor's ascending check\<close>

lemma sortedActionSets_loop_Inl:
  "(\<exists>e. sortedActionSets_loop AS is t = Inl e) \<longleftrightarrow>
   (\<exists>i \<in> set is. \<not> sorted (AS ! i))"
proof (induction "is" arbitrary: t)
  case Nil
  then show ?case by simp
next
  case (Cons i rest)
  have "sort (AS ! i) = AS ! i \<longleftrightarrow> sorted (AS ! i)"
    by (metis sorted_sort sorted_sort_id)
  with Cons show ?case by auto
qed

lemma sortedActionSets_loop_error:
  "sortedActionSets_loop AS is t = Inl e \<Longrightarrow>
   \<exists>i \<in> set is. e = NotAscending i \<and> \<not> sorted (AS ! i)"
proof (induction "is" arbitrary: t)
  case Nil
  then show ?case by simp
next
  case (Cons i rest)
  have "sort (AS ! i) = AS ! i \<longleftrightarrow> sorted (AS ! i)"
    by (metis sorted_sort sorted_sort_id)
  with Cons show ?case by (auto split: if_splits)
qed

text \<open>
  Claim C7, as the code has it: the constructor throws exactly when some player's action
  list is not in non-decreasing order (the sorted copy differs), and the error names such a
  player.  A descending pair always throws; a strictly ascending list always passes.  A
  repeated node index in an otherwise ascending list passes as well.
\<close>

theorem AGG_checkActionSets_raises_iff_unsorted:
  "((\<exists>e. AGG_checkActionSets n AS = Inl e) \<longleftrightarrow>
      (\<exists>i < n. \<not> sorted (AS ! i)))
   \<and> (\<forall>e. AGG_checkActionSets n AS = Inl e \<longrightarrow>
         (\<exists>i < n. e = NotAscending i \<and> \<not> sorted (AS ! i)))
   \<and> ((\<forall>i < n. sorted_wrt (<) (AS ! i)) \<longrightarrow>
         (\<exists>t. AGG_checkActionSets n AS = Inr t))"
proof (intro conjI allI impI)
  show "(\<exists>e. AGG_checkActionSets n AS = Inl e) \<longleftrightarrow>
      (\<exists>i < n. \<not> sorted (AS ! i))"
    unfolding AGG_checkActionSets_def sortedActionSets_loop_Inl by auto
next
  fix e assume "AGG_checkActionSets n AS = Inl e"
  then show "\<exists>i < n. e = NotAscending i \<and> \<not> sorted (AS ! i)"
    unfolding AGG_checkActionSets_def by (auto dest: sortedActionSets_loop_error)
next
  assume strict: "\<forall>i < n. sorted_wrt (<) (AS ! i)"
  have "\<not> (\<exists>i \<in> set [0..<n]. \<not> sorted (AS ! i))"
    using strict by (auto intro: strict_sorted_imp_sorted)
  then have "\<not> (\<exists>e. sortedActionSets_loop AS [0..<n] [] = Inl e)"
    unfolding sortedActionSets_loop_Inl .
  then show "\<exists>t. AGG_checkActionSets n AS = Inr t"
    unfolding AGG_checkActionSets_def
    by (cases "sortedActionSets_loop AS [0..<n] []") auto
qed

theorem AGG_checkActionSets_raises_iff_unsorted_witness:
  "AGG_checkActionSets 2 [[0, 1], [2, 1]] = Inl (NotAscending 1)
   \<and> \<not> sorted ([[0, 1], [2, 1]] ! 1 :: int list)
   \<and> (\<exists>t. AGG_checkActionSets 2 [[0, 1], [1, 2]] = Inr t)"
proof -
  have a: "AGG_checkActionSets 2 [[0, 1], [2, 1]] = Inl (NotAscending 1)"
    by (simp add: AGG_checkActionSets_def upt_rec numeral_2_eq_2)
  have b: "\<forall>i < 2. sorted_wrt (<) ([[0, 1], [1, 2 :: int]] ! i)"
    by (simp add: less_Suc_eq numeral_2_eq_2)
  from AGG_checkActionSets_raises_iff_unsorted [of 2 "[[0, 1], [1, 2]]"] b
  have c: "\<exists>t. AGG_checkActionSets 2 [[0, 1], [1, 2]] = Inr t" by blast
  from a c show ?thesis by simp
qed

text \<open>
  The claim as stated fails: a repeated node index is not strictly ascending, yet the
  sorted copy equals the original and the constructor's check passes.
\<close>

theorem AGG_checkActionSets_repeated_index_passes:
  "\<not> sorted_wrt (<) ([[0, 0]] ! 0 :: int list)
   \<and> AGG_checkActionSets 1 [[0, 0]] = Inr [([0, 0], 0)]"
  by (simp add: AGG_checkActionSets_def)

section \<open>Ancestor computation: termination and cycle reports\<close>

lemma fedges_action_node_no_succ: "a < int S \<Longrightarrow> (a, b) \<notin> fedges neighb S"
  by (simp add: fedges_def)

lemma action_node_reach: "a < int S \<Longrightarrow> (a, g) \<in> (fedges neighb S)\<^sup>* \<Longrightarrow> g = a"
  by (erule converse_rtranclE) (auto simp: fedges_def)

lemma action_node_no_cycle: "a < int S \<Longrightarrow> (a, a) \<notin> (fedges neighb S)\<^sup>+"
  by (auto dest: tranclD simp: fedges_def)

lemma getAn_Inr_no_cycle:
  "getAn neighb projTypes S dest Node path = Inr d \<Longrightarrow>
     (\<forall>g. (Node, g) \<in> (fedges neighb S)\<^sup>* \<longrightarrow> (g, g) \<notin> (fedges neighb S)\<^sup>+)"
  "getAn_loop neighb projTypes S dest Node xs path = Inr d \<Longrightarrow>
     (\<forall>x \<in> set xs. \<forall>g. (x, g) \<in> (fedges neighb S)\<^sup>* \<longrightarrow> (g, g) \<notin> (fedges neighb S)\<^sup>+)"
proof (induction neighb projTypes S dest Node path and neighb projTypes S dest Node xs path
    arbitrary: d and d rule: getAn_getAn_loop.induct)
  case (1 neighb projTypes S dest Node path)
  let ?E = "fedges neighb S"
  show ?case
  proof (cases "Node < int S")
    case True
    then show ?thesis
      using action_node_reach[OF True] action_node_no_cycle[OF True] by blast
  next
    case False
    with "1.prems" have np: "Node \<notin> set path"
      and rng: "\<not> (length neighb \<le> nat Node \<or> length projTypes \<le> nat (Node - int S))"
      and loop: "getAn_loop neighb projTypes S dest Node (neighb ! nat Node) (path @ [Node]) = Inr d"
      by (auto simp: getAn.simps split: if_splits)
    from "1.IH"[OF False np rng loop]
    have nb: "\<forall>x \<in> set (neighb ! nat Node). \<forall>g. (x, g) \<in> ?E\<^sup>* \<longrightarrow> (g, g) \<notin> ?E\<^sup>+" .
    have succ: "\<And>x. (Node, x) \<in> ?E \<Longrightarrow> x \<in> set (neighb ! nat Node)"
      by (simp add: fedges_def)
    show ?thesis
    proof (intro allI impI)
      fix g assume reach: "(Node, g) \<in> ?E\<^sup>*"
      show "(g, g) \<notin> ?E\<^sup>+"
      proof (cases "g = Node")
        case True
        show ?thesis
        proof
          assume "(g, g) \<in> ?E\<^sup>+"
          then obtain x where x: "(Node, x) \<in> ?E" "(x, Node) \<in> ?E\<^sup>*"
            using True by (auto dest: tranclD)
          with nb succ have "(Node, Node) \<notin> ?E\<^sup>+" by blast
          with \<open>(g, g) \<in> ?E\<^sup>+\<close> True show False by simp
        qed
      next
        case False
        with reach obtain x where "(Node, x) \<in> ?E" "(x, g) \<in> ?E\<^sup>*"
          by (auto elim: converse_rtranclE)
        with nb succ show ?thesis by blast
      qed
    qed
  qed
next
  case (2 neighb projTypes S dest Node path)
  then show ?case by simp
next
  case (3 neighb projTypes S dest Node x rest path)
  from "3.prems" have c1: "\<not> (int S \<le> x \<and> length projTypes \<le> nat (x - int S))"
    and c2: "\<not> (int S \<le> x \<and> projTypes ! nat (x - int S) \<noteq> projTypes ! nat (Node - int S))"
    by (auto split: if_splits)
  from "3.prems" c1 c2 obtain d' where
    h: "getAn neighb projTypes S dest x path = Inr d'"
    and t: "getAn_loop neighb projTypes S d' Node rest path = Inr d"
    by (auto split: sum.splits)
  from "3.IH"(1)[OF c1 c2 h] "3.IH"(2)[OF c1 c2 h t]
  show ?case by simp
qed


lemma getAn_CycleAt:
  "getAn neighb projTypes S dest Node path = Inl (CycleAt n) \<Longrightarrow>
     (\<forall>p \<in> set path. (p, Node) \<in> (fedges neighb S)\<^sup>+) \<Longrightarrow>
     (Node, n) \<in> (fedges neighb S)\<^sup>* \<and> (n, n) \<in> (fedges neighb S)\<^sup>+"
  "getAn_loop neighb projTypes S dest Node xs path = Inl (CycleAt n) \<Longrightarrow>
     (\<forall>p \<in> set path. (p, Node) \<in> (fedges neighb S)\<^sup>*) \<Longrightarrow>
     int S \<le> Node \<Longrightarrow> nat Node < length neighb \<Longrightarrow> set xs \<subseteq> set (neighb ! nat Node) \<Longrightarrow>
     (Node, n) \<in> (fedges neighb S)\<^sup>* \<and> (n, n) \<in> (fedges neighb S)\<^sup>+"
proof (induction neighb projTypes S dest Node path and neighb projTypes S dest Node xs path
    arbitrary: n and n rule: getAn_getAn_loop.induct)
  case (1 neighb projTypes S dest Node path)
  let ?E = "fedges neighb S"
  from "1.prems"(1) have ge: "\<not> Node < int S"
    by (auto simp: getAn.simps split: if_splits)
  show ?case
  proof (cases "Node \<in> set path")
    case True
    with "1.prems"(1) ge have "n = Node" by (simp add: getAn.simps)
    with True "1.prems"(2) show ?thesis by auto
  next
    case False
    with "1.prems"(1) ge
    have rng: "\<not> (length neighb \<le> nat Node \<or> length projTypes \<le> nat (Node - int S))"
      and loop: "getAn_loop neighb projTypes S dest Node (neighb ! nat Node) (path @ [Node])
                  = Inl (CycleAt n)"
      by (auto simp: getAn.simps split: if_splits)
    have inv: "\<forall>p \<in> set (path @ [Node]). (p, Node) \<in> ?E\<^sup>*"
      using "1.prems"(2) by (auto intro: trancl_into_rtrancl)
    from ge have a: "int S \<le> Node" by simp
    from rng have b: "nat Node < length neighb" by simp
    show ?thesis
      by (rule "1.IH"[OF ge False rng loop inv a b]) simp
  qed
next
  case (2 neighb projTypes S dest Node path)
  then show ?case by simp
next
  case (3 neighb projTypes S dest Node x rest path)
  let ?E = "fedges neighb S"
  from "3.prems"(1) have c1: "\<not> (int S \<le> x \<and> length projTypes \<le> nat (x - int S))"
    and c2: "\<not> (int S \<le> x \<and> projTypes ! nat (x - int S) \<noteq> projTypes ! nat (Node - int S))"
    by (auto split: if_splits)
  from "3.prems" have edge: "(Node, x) \<in> ?E" by (simp add: fedges_def)
  show ?case
  proof (cases "getAn neighb projTypes S dest x path")
    case (Inl e)
    with "3.prems"(1) c1 c2 have e: "getAn neighb projTypes S dest x path = Inl (CycleAt n)"
      by simp
    have inv: "\<forall>p \<in> set path. (p, x) \<in> ?E\<^sup>+"
      using "3.prems"(2) edge by (auto intro: rtrancl_into_trancl1)
    from "3.IH"(1)[OF c1 c2 e inv] edge show ?thesis
      by (auto intro: converse_rtrancl_into_rtrancl)
  next
    case (Inr d')
    with "3.prems"(1) c1 c2
    have t: "getAn_loop neighb projTypes S d' Node rest path = Inl (CycleAt n)" by simp
    from "3.prems"(5) have sub: "set rest \<subseteq> set (neighb ! nat Node)" by simp
    show ?thesis
      by (rule "3.IH"(2)[OF c1 c2 Inr t "3.prems"(2) "3.prems"(3) "3.prems"(4) sub])
  qed
qed

lemma getAn_TypeMismatch:
  "getAn neighb projTypes S dest Node path = Inl (TypeMismatch a b) \<Longrightarrow>
     (Node, a) \<in> (fedges neighb S)\<^sup>* \<and> (a, b) \<in> fedges neighb S \<and> int S \<le> b
     \<and> projTypes ! nat (b - int S) \<noteq> projTypes ! nat (a - int S)"
  "getAn_loop neighb projTypes S dest Node xs path = Inl (TypeMismatch a b) \<Longrightarrow>
     int S \<le> Node \<Longrightarrow> nat Node < length neighb \<Longrightarrow> set xs \<subseteq> set (neighb ! nat Node) \<Longrightarrow>
     (Node, a) \<in> (fedges neighb S)\<^sup>* \<and> (a, b) \<in> fedges neighb S \<and> int S \<le> b
     \<and> projTypes ! nat (b - int S) \<noteq> projTypes ! nat (a - int S)"
proof (induction neighb projTypes S dest Node path and neighb projTypes S dest Node xs path
    arbitrary: a b and a b rule: getAn_getAn_loop.induct)
  case (1 neighb projTypes S dest Node path)
  from "1.prems"(1) have ge: "\<not> Node < int S" and np: "Node \<notin> set path"
    and rng: "\<not> (length neighb \<le> nat Node \<or> length projTypes \<le> nat (Node - int S))"
    and loop: "getAn_loop neighb projTypes S dest Node (neighb ! nat Node) (path @ [Node])
                  = Inl (TypeMismatch a b)"
    by (auto simp: getAn.simps split: if_splits)
  from ge have a: "int S \<le> Node" by simp
  from rng have b: "nat Node < length neighb" by simp
  show ?case
    by (rule "1.IH"[OF ge np rng loop a b]) simp
next
  case (2 neighb projTypes S dest Node path)
  then show ?case by simp
next
  case (3 neighb projTypes S dest Node x rest path)
  let ?E = "fedges neighb S"
  from "3.prems" have edge: "(Node, x) \<in> ?E" by (simp add: fedges_def)
  from "3.prems"(1) have c1: "\<not> (int S \<le> x \<and> length projTypes \<le> nat (x - int S))"
    by (auto split: if_splits)
  show ?case
  proof (cases "int S \<le> x \<and> projTypes ! nat (x - int S) \<noteq> projTypes ! nat (Node - int S)")
    case True
    with "3.prems"(1) c1 have "a = Node" "b = x" by auto
    with True edge show ?thesis by simp
  next
    case c2: False
    show ?thesis
    proof (cases "getAn neighb projTypes S dest x path")
      case (Inl e)
      with "3.prems"(1) c1 c2
      have e: "getAn neighb projTypes S dest x path = Inl (TypeMismatch a b)" by simp
      from "3.IH"(1)[OF c1 c2 e] edge show ?thesis
        by (auto intro: converse_rtrancl_into_rtrancl)
    next
      case (Inr d')
      with "3.prems"(1) c1 c2
      have t: "getAn_loop neighb projTypes S d' Node rest path = Inl (TypeMismatch a b)" by simp
      from "3.prems"(4) have sub: "set rest \<subseteq> set (neighb ! nat Node)" by simp
      show ?thesis
        by (rule "3.IH"(2)[OF c1 c2 Inr t "3.prems"(2) "3.prems"(3) sub])
    qed
  qed
qed

lemma getAn_error_kinds:
  "getAn neighb projTypes S dest Node path = Inl e \<Longrightarrow>
     (\<exists>n. e = CycleAt n) \<or> (\<exists>a b. e = TypeMismatch a b) \<or> (\<exists>x. e = OutOfRange x)"
  "getAn_loop neighb projTypes S dest Node xs path = Inl e \<Longrightarrow>
     (\<exists>n. e = CycleAt n) \<or> (\<exists>a b. e = TypeMismatch a b) \<or> (\<exists>x. e = OutOfRange x)"
proof (induction neighb projTypes S dest Node path and neighb projTypes S dest Node xs path
    arbitrary: e and e rule: getAn_getAn_loop.induct)
  case (1 neighb projTypes S dest Node path)
  show ?case
  proof (cases "\<not> Node < int S \<and> Node \<notin> set path
      \<and> \<not> (length neighb \<le> nat Node \<or> length projTypes \<le> nat (Node - int S))")
    case True
    with "1.prems" have
      "getAn_loop neighb projTypes S dest Node (neighb ! nat Node) (path @ [Node]) = Inl e"
      by (simp add: getAn.simps)
    with True "1.IH" show ?thesis by blast
  next
    case False
    with "1.prems" show ?thesis by (auto simp: getAn.simps split: if_splits)
  qed
next
  case (2 neighb projTypes S dest Node path)
  then show ?case by simp
next
  case (3 neighb projTypes S dest Node x rest path)
  show ?case
  proof (cases "\<not> (int S \<le> x \<and> length projTypes \<le> nat (x - int S))
      \<and> \<not> (int S \<le> x \<and> projTypes ! nat (x - int S) \<noteq> projTypes ! nat (Node - int S))")
    case True
    then have c1: "\<not> (int S \<le> x \<and> length projTypes \<le> nat (x - int S))"
      and c2: "\<not> (int S \<le> x \<and> projTypes ! nat (x - int S) \<noteq> projTypes ! nat (Node - int S))"
      by blast+
    show ?thesis
    proof (cases "getAn neighb projTypes S dest x path")
      case (Inl e')
      with "3.prems" c1 c2 have "e' = e" by simp
      with Inl "3.IH"(1)[OF c1 c2] show ?thesis by blast
    next
      case (Inr d')
      with "3.prems" c1 c2 have "getAn_loop neighb projTypes S d' Node rest path = Inl e" by simp
      with "3.IH"(2)[OF c1 c2 Inr] show ?thesis by blast
    qed
  next
    case False
    with "3.prems" show ?thesis by (auto split: if_splits)
  qed
qed


lemma walks_action:
  "g < int S \<Longrightarrow> {ps. walk neighb S g ps a} = (if g = a then {[]} else {})"
proof -
  assume g: "g < int S"
  have "walk neighb S g ps a \<longleftrightarrow> ps = [] \<and> g = a" for ps
    using g by (cases ps) auto
  then show ?thesis by auto
qed

lemma walks_function:
  assumes "int S \<le> g" "nat g < length neighb"
  shows "{ps. walk neighb S g ps a} =
     (\<Union>i \<in> {..<length (neighb ! nat g)}. (#) i ` {ps. walk neighb S (neighb ! nat g ! i) ps a})"
proof -
  have "walk neighb S g ps a \<longleftrightarrow>
      (\<exists>i qs. ps = i # qs \<and> i < length (neighb ! nat g) \<and> walk neighb S (neighb ! nat g ! i) qs a)"
    for ps
    using assms by (cases ps) auto
  then show ?thesis by auto
qed

lemma npaths_function:
  assumes g: "int S \<le> g" "nat g < length neighb"
    and fin: "\<forall>x \<in> set (neighb ! nat g). finite {ps. walk neighb S x ps a}"
  shows "finite {ps. walk neighb S g ps a}"
    and "card {ps. walk neighb S g ps a}
          = sum_list (map (\<lambda>x. card {ps. walk neighb S x ps a}) (neighb ! nat g))"
proof -
  let ?nb = "neighb ! nat g"
  let ?W = "\<lambda>x. {ps. walk neighb S x ps a}"
  let ?F = "\<lambda>i. (#) i ` ?W (?nb ! i)"
  have eq: "?W g = (\<Union>i \<in> {..<length ?nb}. ?F i)" by (rule walks_function[OF g])
  have finF: "\<forall>i \<in> {..<length ?nb}. finite (?F i)" using fin by simp
  then show "finite (?W g)" unfolding eq by simp
  have disj: "\<forall>i \<in> {..<length ?nb}. \<forall>j \<in> {..<length ?nb}. i \<noteq> j \<longrightarrow> ?F i \<inter> ?F j = {}"
    by auto
  have "card (?W g) = (\<Sum>i \<in> {..<length ?nb}. card (?F i))"
    unfolding eq by (rule card_UN_disjoint[OF _ finF disj]) simp
  also have "\<dots> = (\<Sum>i \<in> {..<length ?nb}. card (?W (?nb ! i)))"
    by (intro sum.cong refl card_image) simp
  also have "\<dots> = sum_list (map (\<lambda>x. card (?W x)) ?nb)"
    by (simp add: sum_list_sum_nth atLeast0LessThan)
  finally show "card (?W g) = sum_list (map (\<lambda>x. card (?W x)) ?nb)" .
qed

lemma getAn_Inr_walks:
  "getAn neighb projTypes S dest Node path = Inr d \<Longrightarrow>
     finite {ps. walk neighb S Node ps a}
     \<and> count d a = count dest a + card {ps. walk neighb S Node ps a}"
  "getAn_loop neighb projTypes S dest Node xs path = Inr d \<Longrightarrow>
     (\<forall>x \<in> set xs. finite {ps. walk neighb S x ps a})
     \<and> count d a = count dest a + sum_list (map (\<lambda>x. card {ps. walk neighb S x ps a}) xs)"
proof (induction neighb projTypes S dest Node path and neighb projTypes S dest Node xs path
    arbitrary: d and d rule: getAn_getAn_loop.induct)
  case (1 neighb projTypes S dest Node path)
  show ?case
  proof (cases "Node < int S")
    case True
    with "1.prems" have "d = add_mset Node dest" by (simp add: getAn.simps)
    then show ?thesis unfolding walks_action[OF True] by simp
  next
    case False
    with "1.prems" have np: "Node \<notin> set path"
      and rng: "\<not> (length neighb \<le> nat Node \<or> length projTypes \<le> nat (Node - int S))"
      and loop: "getAn_loop neighb projTypes S dest Node (neighb ! nat Node) (path @ [Node]) = Inr d"
      by (auto simp: getAn.simps split: if_splits)
    from "1.IH"[OF False np rng loop]
    have fin: "\<forall>x \<in> set (neighb ! nat Node). finite {ps. walk neighb S x ps a}"
      and cnt: "count d a = count dest a
          + sum_list (map (\<lambda>x. card {ps. walk neighb S x ps a}) (neighb ! nat Node))"
      by blast+
    from False have g1: "int S \<le> Node" by simp
    from rng have g2: "nat Node < length neighb" by simp
    from npaths_function[OF g1 g2 fin] cnt show ?thesis by simp
  qed
next
  case (2 neighb projTypes S dest Node path)
  then show ?case by simp
next
  case (3 neighb projTypes S dest Node x rest path)
  from "3.prems" have c1: "\<not> (int S \<le> x \<and> length projTypes \<le> nat (x - int S))"
    and c2: "\<not> (int S \<le> x \<and> projTypes ! nat (x - int S) \<noteq> projTypes ! nat (Node - int S))"
    by (auto split: if_splits)
  from "3.prems" c1 c2 obtain d' where
    h: "getAn neighb projTypes S dest x path = Inr d'"
    and t: "getAn_loop neighb projTypes S d' Node rest path = Inr d"
    by (auto split: sum.splits)
  from "3.IH"(1)[OF c1 c2 h] "3.IH"(2)[OF c1 c2 h t]
  show ?case by simp
qed

lemma getAn_Inr_no_mismatch:
  "getAn neighb projTypes S dest Node path = Inr d \<Longrightarrow>
     (\<forall>a b. (Node, a) \<in> (fedges neighb S)\<^sup>* \<longrightarrow> (a, b) \<notin> mismatch neighb projTypes S)"
  "getAn_loop neighb projTypes S dest Node xs path = Inr d \<Longrightarrow>
     (\<forall>x \<in> set xs.
        \<not> (int S \<le> x \<and> projTypes ! nat (x - int S) \<noteq> projTypes ! nat (Node - int S))
        \<and> (\<forall>a b. (x, a) \<in> (fedges neighb S)\<^sup>* \<longrightarrow> (a, b) \<notin> mismatch neighb projTypes S))"
proof (induction neighb projTypes S dest Node path and neighb projTypes S dest Node xs path
    arbitrary: d and d rule: getAn_getAn_loop.induct)
  case (1 neighb projTypes S dest Node path)
  let ?E = "fedges neighb S"
  show ?case
  proof (cases "Node < int S")
    case True
    show ?thesis
    proof (intro allI impI)
      fix a b assume "(Node, a) \<in> ?E\<^sup>*"
      with action_node_reach[OF True] have "a = Node" by blast
      with True show "(a, b) \<notin> mismatch neighb projTypes S"
        by (simp add: mismatch_def fedges_def)
    qed
  next
    case False
    with "1.prems" have np: "Node \<notin> set path"
      and rng: "\<not> (length neighb \<le> nat Node \<or> length projTypes \<le> nat (Node - int S))"
      and loop: "getAn_loop neighb projTypes S dest Node (neighb ! nat Node) (path @ [Node]) = Inr d"
      by (auto simp: getAn.simps split: if_splits)
    note nb = "1.IH"[OF False np rng loop]
    have succ: "\<And>x. (Node, x) \<in> ?E \<Longrightarrow> x \<in> set (neighb ! nat Node)"
      by (simp add: fedges_def)
    show ?thesis
    proof (intro allI impI)
      fix a b assume reach: "(Node, a) \<in> ?E\<^sup>*"
      show "(a, b) \<notin> mismatch neighb projTypes S"
      proof (cases "a = Node")
        case True
        show ?thesis
        proof
          assume m: "(a, b) \<in> mismatch neighb projTypes S"
          then have "(Node, b) \<in> ?E" using True by (simp add: mismatch_def)
          then have "b \<in> set (neighb ! nat Node)" by (rule succ)
          with nb m True show False by (auto simp: mismatch_def)
        qed
      next
        case False
        with reach obtain x where "(Node, x) \<in> ?E" "(x, a) \<in> ?E\<^sup>*"
          by (auto elim: converse_rtranclE)
        with nb succ show ?thesis by blast
      qed
    qed
  qed
next
  case (2 neighb projTypes S dest Node path)
  then show ?case by simp
next
  case (3 neighb projTypes S dest Node x rest path)
  from "3.prems" have c1: "\<not> (int S \<le> x \<and> length projTypes \<le> nat (x - int S))"
    and c2: "\<not> (int S \<le> x \<and> projTypes ! nat (x - int S) \<noteq> projTypes ! nat (Node - int S))"
    by (auto split: if_splits)
  from "3.prems" c1 c2 obtain d' where
    h: "getAn neighb projTypes S dest x path = Inr d'"
    and t: "getAn_loop neighb projTypes S d' Node rest path = Inr d"
    by (auto split: sum.splits)
  from "3.IH"(1)[OF c1 c2 h] "3.IH"(2)[OF c1 c2 h t] c2
  show ?case by simp
qed

lemma getAn_in_range:
  "getAn neighb projTypes S dest Node path = Inl (OutOfRange y) \<Longrightarrow>
     length neighb = S + P \<Longrightarrow> length projTypes = P \<Longrightarrow> nodes_in_range neighb S P \<Longrightarrow>
     Node < int (S + P) \<Longrightarrow> False"
  "getAn_loop neighb projTypes S dest Node xs path = Inl (OutOfRange y) \<Longrightarrow>
     length neighb = S + P \<Longrightarrow> length projTypes = P \<Longrightarrow> nodes_in_range neighb S P \<Longrightarrow>
     \<forall>x \<in> set xs. x < int (S + P) \<Longrightarrow> False"
proof (induction neighb projTypes S dest Node path and neighb projTypes S dest Node xs path
    arbitrary: y and y rule: getAn_getAn_loop.induct)
  case (1 neighb projTypes S dest Node path)
  from "1.prems"(1) have ge: "\<not> Node < int S" and np: "Node \<notin> set path"
    by (auto simp: getAn.simps split: if_splits)
  from ge "1.prems"(2,3,5)
  have rng: "\<not> (length neighb \<le> nat Node \<or> length projTypes \<le> nat (Node - int S))"
    by auto
  with "1.prems"(1) ge np
  have loop: "getAn_loop neighb projTypes S dest Node (neighb ! nat Node) (path @ [Node])
                  = Inl (OutOfRange y)"
    by (simp add: getAn.simps)
  from ge "1.prems"(5) have "nat Node \<in> {S ..< S + P}" by auto
  with "1.prems"(4) have "\<forall>x \<in> set (neighb ! nat Node). x < int (S + P)"
    unfolding nodes_in_range_def by blast
  from "1.IH"[OF ge np rng loop "1.prems"(2,3,4) this] show ?case .
next
  case (2 neighb projTypes S dest Node path)
  then show ?case by simp
next
  case (3 neighb projTypes S dest Node x rest path)
  from "3.prems"(2,3,5) have c1: "\<not> (int S \<le> x \<and> length projTypes \<le> nat (x - int S))"
    by auto
  show ?case
  proof (cases "int S \<le> x \<and> projTypes ! nat (x - int S) \<noteq> projTypes ! nat (Node - int S)")
    case True
    with "3.prems"(1) c1 show ?thesis by simp
  next
    case c2: False
    show ?thesis
    proof (cases "getAn neighb projTypes S dest x path")
      case (Inl e)
      with "3.prems"(1) c1 c2 have "getAn neighb projTypes S dest x path = Inl (OutOfRange y)"
        by simp
      from "3.IH"(1)[OF c1 c2 this "3.prems"(2,3,4)] "3.prems"(5) show ?thesis by simp
    next
      case (Inr d')
      with "3.prems"(1) c1 c2
      have t: "getAn_loop neighb projTypes S d' Node rest path = Inl (OutOfRange y)" by simp
      from "3.prems"(5) have "\<forall>x \<in> set rest. x < int (S + P)" by simp
      from "3.IH"(2)[OF c1 c2 Inr t "3.prems"(2,3,4) this] show ?thesis .
    qed
  qed
qed


text \<open>
  Claim C6, as the code has it, on a game whose node indices are in range.  \<open>getAn\<close> is
  a total function, and from the starting node it returns the ancestors exactly when no
  cycle and no edge with mismatched projection functions can be reached.  Every error it
  raises is the cycle error at a node that can be reached and lies on a cycle, or the
  mismatch error at an edge that can be reached and is mismatched.  So on an acyclic graph
  it returns or reports a mismatch, and when a cycle can be reached and no mismatched edge
  can, it raises the cycle error at a node on a cycle.
\<close>

theorem getAn_cycle_report:
  assumes len: "length neighb = S + P" "length projTypes = P"
    and rng: "nodes_in_range neighb S P" and Node: "Node < int (S + P)"
  shows
    "((\<exists>anc. getAn neighb projTypes S dest Node [] = Inr anc) \<longleftrightarrow>
        (\<forall>g. (Node, g) \<in> (fedges neighb S)\<^sup>* \<longrightarrow>
           (g, g) \<notin> (fedges neighb S)\<^sup>+ \<and> (\<forall>b. (g, b) \<notin> mismatch neighb projTypes S)))
     \<and> (\<forall>e. getAn neighb projTypes S dest Node [] = Inl e \<longrightarrow>
           (\<exists>n. e = CycleAt n \<and> (Node, n) \<in> (fedges neighb S)\<^sup>* \<and> (n, n) \<in> (fedges neighb S)\<^sup>+)
         \<or> (\<exists>a b. e = TypeMismatch a b \<and> (Node, a) \<in> (fedges neighb S)\<^sup>*
                 \<and> (a, b) \<in> mismatch neighb projTypes S))
     \<and> ((\<forall>g. (Node, g) \<in> (fedges neighb S)\<^sup>* \<longrightarrow> (g, g) \<notin> (fedges neighb S)\<^sup>+) \<longrightarrow>
           (\<exists>anc. getAn neighb projTypes S dest Node [] = Inr anc)
         \<or> (\<exists>a b. getAn neighb projTypes S dest Node [] = Inl (TypeMismatch a b)))
     \<and> ((\<exists>g. (Node, g) \<in> (fedges neighb S)\<^sup>* \<and> (g, g) \<in> (fedges neighb S)\<^sup>+)
         \<and> (\<forall>a b. (Node, a) \<in> (fedges neighb S)\<^sup>* \<longrightarrow> (a, b) \<notin> mismatch neighb projTypes S) \<longrightarrow>
           (\<exists>n. getAn neighb projTypes S dest Node [] = Inl (CycleAt n)
               \<and> (Node, n) \<in> (fedges neighb S)\<^sup>* \<and> (n, n) \<in> (fedges neighb S)\<^sup>+))"
proof -
  let ?E = "fedges neighb S"
  let ?M = "mismatch neighb projTypes S"
  let ?r = "getAn neighb projTypes S dest Node []"
  have err: "(\<exists>n. e = CycleAt n \<and> (Node, n) \<in> ?E\<^sup>* \<and> (n, n) \<in> ?E\<^sup>+)
         \<or> (\<exists>a b. e = TypeMismatch a b \<and> (Node, a) \<in> ?E\<^sup>* \<and> (a, b) \<in> ?M)"
    if e: "?r = Inl e" for e
  proof -
    from getAn_error_kinds(1)[OF e]
    consider n where "e = CycleAt n" | a b where "e = TypeMismatch a b"
      | x where "e = OutOfRange x" by blast
    then show ?thesis
    proof cases
      case 1
      with e getAn_CycleAt(1)[of neighb projTypes S dest Node "[]" n] show ?thesis by simp
    next
      case 2
      with e getAn_TypeMismatch(1)[of neighb projTypes S dest Node "[]" a b]
      show ?thesis by (simp add: mismatch_def)
    next
      case 3
      with e getAn_in_range(1)[OF _ len rng Node] show ?thesis by blast
    qed
  qed
  have ok: "(\<forall>g. (Node, g) \<in> ?E\<^sup>* \<longrightarrow> (g, g) \<notin> ?E\<^sup>+ \<and> (\<forall>b. (g, b) \<notin> ?M))"
    if "?r = Inr anc" for anc
    using getAn_Inr_no_cycle(1)[OF that] getAn_Inr_no_mismatch(1)[OF that] by blast
  have c1: "(\<exists>anc. ?r = Inr anc) \<longleftrightarrow>
        (\<forall>g. (Node, g) \<in> ?E\<^sup>* \<longrightarrow> (g, g) \<notin> ?E\<^sup>+ \<and> (\<forall>b. (g, b) \<notin> ?M))"
  proof
    assume "\<exists>anc. ?r = Inr anc"
    with ok show "\<forall>g. (Node, g) \<in> ?E\<^sup>* \<longrightarrow> (g, g) \<notin> ?E\<^sup>+ \<and> (\<forall>b. (g, b) \<notin> ?M)" by blast
  next
    assume h: "\<forall>g. (Node, g) \<in> ?E\<^sup>* \<longrightarrow> (g, g) \<notin> ?E\<^sup>+ \<and> (\<forall>b. (g, b) \<notin> ?M)"
    show "\<exists>anc. ?r = Inr anc"
    proof (cases ?r)
      case (Inl e)
      from err[OF Inl] h show ?thesis by blast
    next
      case (Inr anc)
      then show ?thesis by blast
    qed
  qed
  have c2: "\<forall>e. ?r = Inl e \<longrightarrow>
           (\<exists>n. e = CycleAt n \<and> (Node, n) \<in> ?E\<^sup>* \<and> (n, n) \<in> ?E\<^sup>+)
         \<or> (\<exists>a b. e = TypeMismatch a b \<and> (Node, a) \<in> ?E\<^sup>* \<and> (a, b) \<in> ?M)"
    using err by blast
  have c3: "(\<forall>g. (Node, g) \<in> ?E\<^sup>* \<longrightarrow> (g, g) \<notin> ?E\<^sup>+) \<longrightarrow>
           (\<exists>anc. ?r = Inr anc) \<or> (\<exists>a b. ?r = Inl (TypeMismatch a b))"
  proof
    assume h: "\<forall>g. (Node, g) \<in> ?E\<^sup>* \<longrightarrow> (g, g) \<notin> ?E\<^sup>+"
    show "(\<exists>anc. ?r = Inr anc) \<or> (\<exists>a b. ?r = Inl (TypeMismatch a b))"
    proof (cases ?r)
      case (Inl e)
      from err[OF Inl] h Inl show ?thesis by blast
    next
      case (Inr anc)
      then show ?thesis by blast
    qed
  qed
  have c4: "(\<exists>g. (Node, g) \<in> ?E\<^sup>* \<and> (g, g) \<in> ?E\<^sup>+)
         \<and> (\<forall>a b. (Node, a) \<in> ?E\<^sup>* \<longrightarrow> (a, b) \<notin> ?M) \<longrightarrow>
           (\<exists>n. ?r = Inl (CycleAt n) \<and> (Node, n) \<in> ?E\<^sup>* \<and> (n, n) \<in> ?E\<^sup>+)"
  proof
    assume h: "(\<exists>g. (Node, g) \<in> ?E\<^sup>* \<and> (g, g) \<in> ?E\<^sup>+)
         \<and> (\<forall>a b. (Node, a) \<in> ?E\<^sup>* \<longrightarrow> (a, b) \<notin> ?M)"
    show "\<exists>n. ?r = Inl (CycleAt n) \<and> (Node, n) \<in> ?E\<^sup>* \<and> (n, n) \<in> ?E\<^sup>+"
    proof (cases ?r)
      case (Inl e)
      from err[OF Inl] h Inl show ?thesis by blast
    next
      case (Inr anc)
      from ok[OF Inr] h show ?thesis by blast
    qed
  qed
  from c1 c2 c3 c4 show ?thesis by (intro conjI)
qed

theorem getAn_cycle_report_witness:
  "getAn [[], [], [3], [2]] [proj_func_SUM, proj_func_SUM] 2 {#} 2 [] = Inl (CycleAt 2)
   \<and> (2, 2) \<in> (fedges [[], [], [3], [2]] 2)\<^sup>+
   \<and> getAn [[], [], [0, 3], [0, 1]] [proj_func_SUM, proj_func_SUM] 2 {#} 2 [] = Inr {#0, 0, 1#}
   \<and> (2, 2) \<notin> (fedges [[], [], [0, 3], [0, 1]] 2)\<^sup>+"
proof -
  have a: "getAn [[], [], [3], [2]] [proj_func_SUM, proj_func_SUM] 2 {#} 2 [] = Inl (CycleAt 2)"
    by (simp add: getAn.simps)
  have b: "getAn [[], [], [0, 3], [0, 1]] [proj_func_SUM, proj_func_SUM] 2 {#} 2 []
      = Inr {#0, 0, 1#}"
    by (simp add: getAn.simps)
  have l1: "length [[], [], [3], [2 :: int]] = 2 + 2"
    and l2: "length [proj_func_SUM, proj_func_SUM] = 2" by simp_all
  have r1: "nodes_in_range [[], [], [3], [2]] 2 2"
    by (simp add: nodes_in_range_def atLeastLessThan_def lessThan_def atLeast_def
        Ball_def nth_Cons' less_Suc_eq numeral_2_eq_2 numeral_3_eq_3)
  have n: "(2 :: int) < int (2 + 2)" by simp
  from a getAn_cycle_report[OF l1 l2 r1 n, of "{#}"]
  have c: "(2, 2) \<in> (fedges [[], [], [3], [2]] 2)\<^sup>+" by blast
  have l3: "length [[], [], [0, 3], [0, 1 :: int]] = 2 + 2" by simp
  have r2: "nodes_in_range [[], [], [0, 3], [0, 1]] 2 2"
    by (simp add: nodes_in_range_def atLeastLessThan_def lessThan_def atLeast_def
        Ball_def nth_Cons' less_Suc_eq numeral_2_eq_2 numeral_3_eq_3)
  from b getAn_cycle_report[OF l3 l2 r2 n, of "{#}"]
  have d: "(2, 2) \<notin> (fedges [[], [], [0, 3], [0, 1]] 2)\<^sup>+" by blast
  from a b c d show ?thesis by simp
qed


text \<open>
  The claim as stated fails: node 4 is on a cycle reachable from node 2, but the walk from
  node 2 stops at the type mismatch between nodes 2 and 3, and neither lies on a cycle.
\<close>

lemma no_edge_into_2:
  "(y, 2) \<notin> fedges [[], [], [3, 4], [], [4]] 2"
proof
  assume "(y, 2) \<in> fedges [[], [], [3, 4], [], [4]] 2"
  then have *: "int 2 \<le> y \<and> nat y < length [[], [], [3, 4], [], [4 :: int]]
      \<and> 2 \<in> set ([[], [], [3, 4], [], [4 :: int]] ! nat y)"
    unfolding fedges_def by blast
  then have m: "2 \<in> set ([[], [], [3, 4], [], [4 :: int]] ! nat y)" by blast
  from * have y: "2 \<le> y" "nat y < 5" by simp_all
  from y have "nat y = 2 \<or> nat y = 3 \<or> nat y = 4" by linarith
  with m show False by auto
qed

theorem getAn_mismatch_before_cycle:
  "getAn [[], [], [3, 4], [], [4]] [proj_func_SUM, proj_func_EXIST, proj_func_SUM] 2 {#} 2 []
     = Inl (TypeMismatch 2 3)
   \<and> (2, 4) \<in> (fedges [[], [], [3, 4], [], [4]] 2)\<^sup>*
   \<and> (4, 4) \<in> (fedges [[], [], [3, 4], [], [4]] 2)\<^sup>+
   \<and> (2, 2) \<notin> (fedges [[], [], [3, 4], [], [4]] 2)\<^sup>+
   \<and> (3, 3) \<notin> (fedges [[], [], [3, 4], [], [4]] 2)\<^sup>+"
proof (intro conjI)
  show "getAn [[], [], [3, 4], [], [4]] [proj_func_SUM, proj_func_EXIST, proj_func_SUM] 2 {#} 2 []
     = Inl (TypeMismatch 2 3)"
    by (simp add: getAn.simps)
  have "(2, 4) \<in> fedges [[], [], [3, 4], [], [4]] 2" by (simp add: fedges_def)
  then show "(2, 4) \<in> (fedges [[], [], [3, 4], [], [4]] 2)\<^sup>*" by (rule r_into_rtrancl)
  have "(4, 4) \<in> fedges [[], [], [3, 4], [], [4]] 2" by (simp add: fedges_def)
  then show "(4, 4) \<in> (fedges [[], [], [3, 4], [], [4]] 2)\<^sup>+" by (rule r_into_trancl)
  show "(2, 2) \<notin> (fedges [[], [], [3, 4], [], [4]] 2)\<^sup>+"
    using no_edge_into_2 by (auto dest: tranclD2)
  show "(3, 3) \<notin> (fedges [[], [], [3, 4], [], [4]] 2)\<^sup>+"
    by (auto dest!: tranclD simp: fedges_def)
qed

section \<open>The projection tensor\<close>

lemma setProjections_an_nth:
  "setProjections_an neighb projTypes S is = Inr an \<Longrightarrow>
     length an = length is \<and>
     (\<forall>m < length is. getAn neighb projTypes S {#} (int S + int (is ! m)) [] = Inr (an ! m))"
proof (induction "is" arbitrary: an)
  case Nil
  then show ?case by simp
next
  case (Cons i rest)
  from Cons.prems obtain a as where
    a: "getAn neighb projTypes S {#} (int S + int i) [] = Inr a"
    and as: "setProjections_an neighb projTypes S rest = Inr as"
    and an: "an = a # as"
    by (auto split: sum.splits)
  from Cons.IH[OF as] a an show ?case
    by (auto simp: nth_Cons')
qed


text \<open>
  Claim C3: when \<open>setProjections\<close> succeeds, the entry of the projection tensor for
  action node \<open>Node\<close>, player \<open>i\<close>, action \<open>j\<close> and neighbour position \<open>k\<close> is 1 if
  the action's node is that neighbour; otherwise, if the neighbour is a function node \<open>g\<close>
  (an index from \<open>S\<close> on, below \<open>S + P\<close>), it is the projection function of \<open>g\<close> applied
  to the action's node repeated as often as there are walks from \<open>g\<close> down to it, which is
  the sub-multiset of the ancestors of \<open>g\<close> equal to the action's node; otherwise it is 0.
  The multiset that \<open>getAn\<close> collects for \<open>g\<close> holds every node as often as there are
  walks from \<open>g\<close> down to it.
\<close>

theorem setProjections_projection:
  assumes ok: "setProjections N S P AS neighb projTypes = Inr (projS, proj)"
    and Node: "Node < S" and i: "i < N" and j: "j < length (AS ! i)"
    and k: "k < length (neighb ! Node)"
    and g: "neighb ! Node ! k < int S + int P"
  shows "proj ! Node ! i ! j ! k =
     (if AS ! i ! j = neighb ! Node ! k then 1
      else if int S \<le> neighb ! Node ! k then
        proj_apply (projTypes ! nat (neighb ! Node ! k - int S))
          (replicate_mset (npaths neighb S (neighb ! Node ! k) (AS ! i ! j)) (AS ! i ! j))
      else 0)
     \<and> (int S \<le> neighb ! Node ! k \<longrightarrow>
          (\<exists>anc. getAn neighb projTypes S {#} (neighb ! Node ! k) [] = Inr anc
             \<and> (\<forall>a. count anc a = npaths neighb S (neighb ! Node ! k) a)))"
proof -
  from ok obtain an where an: "setProjections_an neighb projTypes S [0..<P] = Inr an"
    by (auto simp: setProjections_def split: sum.splits)
  from ok an have proj: "proj = map (\<lambda>Node. map (\<lambda>i. map (\<lambda>j.
                        map (proj_entry S AS neighb projTypes an Node i j)
                          [0..<length (neighb ! Node)])
                        [0..<length (AS ! i)]) [0..<N]) [0..<S]"
    by (simp add: setProjections_def Let_def)
  have entry: "proj ! Node ! i ! j ! k = proj_entry S AS neighb projTypes an Node i j k"
    unfolding proj using Node i j k by simp
  let ?g = "neighb ! Node ! k"
  let ?m = "nat (?g - int S)"
  have anc: "getAn neighb projTypes S {#} ?g [] = Inr (an ! ?m)" if ge: "int S \<le> ?g"
  proof -
    from ge g have m: "?m < P" by linarith
    from setProjections_an_nth[OF an]
    have all: "\<forall>m < P. getAn neighb projTypes S {#} (int S + int m) [] = Inr (an ! m)"
      by simp
    from ge have e: "int S + int ?m = ?g" by linarith
    from all m have "getAn neighb projTypes S {#} (int S + int ?m) [] = Inr (an ! ?m)" by blast
    then show ?thesis unfolding e .
  qed
  have cnt: "count (an ! ?m) a = npaths neighb S ?g a" if ge: "int S \<le> ?g" for a
    using getAn_Inr_walks(1)[OF anc[OF ge], of a] by (simp add: npaths_def)
  have sub: "filter_mset (\<lambda>x. x = a) (an ! ?m) = replicate_mset (npaths neighb S ?g a) a"
    if ge: "int S \<le> ?g" for a
    unfolding cnt[OF ge, symmetric] by (rule filter_eq_replicate_mset)
  have v: "proj ! Node ! i ! j ! k =
     (if AS ! i ! j = ?g then 1
      else if int S \<le> ?g then
        proj_apply (projTypes ! ?m) (replicate_mset (npaths neighb S ?g (AS ! i ! j)) (AS ! i ! j))
      else 0)"
    unfolding entry proj_entry_def using sub by simp
  from v anc cnt show ?thesis by blast
qed


theorem setProjections_projection_witness:
  "setProjections 2 2 2 [[0, 1], [1]] [[0, 3], [3], [0, 1], [2, 1]] [proj_func_SUM, proj_func_SUM]
     = Inr ([[[([0, 2], 1), ([1, 1], 1)], [([0, 2], 1)]], [[([1], 1), ([2], 1)], [([2], 1)]]],
            [[[[1, 1], [0, 2]], [[0, 2]]], [[[1], [2]], [[2]]]])
   \<and> npaths [[0, 3], [3], [0, 1], [2, 1]] 2 3 1 = 2
   \<and> npaths [[0, 3], [3], [0, 1], [2, 1]] 2 3 0 = 1"
proof -
  let ?nb = "[[0, 3], [3], [0, 1], [2, 1 :: int]]"
  let ?pr = "[[[[1, 1], [0, 2]], [[0, 2]]], [[[1], [2]], [[2 :: int]]]]"
  have sp: "setProjections 2 2 2 [[0, 1], [1]] ?nb [proj_func_SUM, proj_func_SUM]
     = Inr ([[[([0, 2], 1), ([1, 1], 1)], [([0, 2], 1)]], [[([1], 1), ([2], 1)], [([2], 1)]]],
            ?pr)"
    by code_simp
  have h: "(0::nat) < 2" "(1::nat) < length ([[0, 1], [1 :: int]] ! 0)"
    "(0::nat) < length ([[0, 1], [1 :: int]] ! 0)"
    "(1::nat) < length (?nb ! 0)" "?nb ! 0 ! 1 < int 2 + int 2"
    by simp_all
  from setProjections_projection[OF sp h(1) h(1) h(2) h(4) h(5)]
  have a: "npaths ?nb 2 3 1 = 2" by simp
  from setProjections_projection[OF sp h(1) h(1) h(3) h(4) h(5)]
  have b: "npaths ?nb 2 3 0 = 1" by simp
  from sp a b show ?thesis by blast
qed

section \<open>The order of the players\<close>






section \<open>Reading a MAPPING payoff table\<close>


lemma trie_insert_keys:
  "fst ` set (trie_insert t k v) = insert k (fst ` set t)"
proof (induction t)
  case Nil
  then show ?case by simp
next
  case (Cons a t)
  obtain k' v' where a: "a = (k', v')" by (cases a)
  show ?case
  proof (cases "k = k'")
    case True
    then show ?thesis by (simp add: a insert_absorb)
  next
    case False
    with Cons show ?thesis by (simp add: a insert_commute)
  qed
qed




















section \<open>Marginalising a mixed strategy\<close>

lemma trie_total_add: "trie_total (trie_add t k w) = trie_total t + w"
  unfolding trie_total_def by (induction t) auto

lemma trie_total_fold_add:
  "trie_total (fold (\<lambda>j d. if s ! j > 0 then trie_add d (key j) (s ! j) else d) js d)
     = trie_total d + sum_list (map (\<lambda>j. max 0 (s ! j)) js)"
  by (induction js arbitrary: d) (auto simp: trie_total_add max_def)

lemma doProjection_player_nth:
  assumes "Node < length (projectedStrat g)" "i < length (projectedStrat g ! Node)"
  shows "projectedStrat (doProjection_player g Node i s) ! Node ! i = projected g Node i s"
  using assms by (simp add: doProjection_player_def projected_def)


text \<open>
  Claim C8: after \<open>doProjection(Node, i, s)\<close> on a mixed strategy \<open>s\<close> of player \<open>i\<close>
  (no entry negative), the total weight stored in \<open>projectedStrat[Node][i]\<close> is the sum of
  the entries of \<open>s\<close> over the actions of the player; it is 1 when they sum to 1.
\<close>

theorem doProjection_total_weight:
  assumes "Node < length (projectedStrat g)" "i < length (projectedStrat g ! Node)"
    and "\<forall>j < actions g ! i. 0 \<le> s ! j"
  shows "trie_total (projectedStrat (doProjection_player g Node i s) ! Node ! i)
           = (\<Sum>j < actions g ! i. s ! j)
       \<and> ((\<Sum>j < actions g ! i. s ! j) = 1 \<longrightarrow>
            trie_total (projectedStrat (doProjection_player g Node i s) ! Node ! i) = 1)"
proof -
  have "trie_total (projected g Node i s) = sum_list (map (\<lambda>j. max 0 (s ! j)) [0..<actions g ! i])"
    unfolding projected_def trie_total_fold_add by (simp add: trie_total_def)
  also have "\<dots> = sum_list (map (\<lambda>j. s ! j) [0..<actions g ! i])"
    using assms(3) by (intro arg_cong[where f = sum_list] map_cong) (auto simp: max_def)
  also have "\<dots> = (\<Sum>j < actions g ! i. s ! j)"
    by (simp add: interv_sum_list_conv_sum_set_nat atLeast0LessThan)
  finally show ?thesis
    unfolding doProjection_player_nth[OF assms(1,2)] by simp
qed


theorem doProjection_total_weight_witness:
  "trie_total (projectedStrat (doProjection_player coordination_game 0 1 [1 / 3, 2 / 3]) ! 0 ! 1) = 1"
proof -
  have a: "0 < length (projectedStrat coordination_game)"
    "1 < length (projectedStrat coordination_game ! 0)"
    by (simp_all add: coordination_game_def)
  have b: "\<forall>j < actions coordination_game ! 1. 0 \<le> [1 / 3, 2 / 3 :: AggNumber] ! j"
    by (simp add: coordination_game_def less_Suc_eq numeral_2_eq_2)
  have c: "(\<Sum>j < actions coordination_game ! 1. [1 / 3, 2 / 3 :: AggNumber] ! j) = 1"
    by (simp add: coordination_game_def lessThan_Suc numeral_2_eq_2)
  from doProjection_total_weight[OF a b] c show ?thesis by simp
qed

section \<open>The value of an oracle call\<close>

lemma projected_scratch [simp]:
  "projected (g\<lparr>projectedStrat := X\<rparr>) = projected g"
  "projected (g\<lparr>Pr := Y\<rparr>) = projected g"
  by (simp_all add: projected_def fun_eq_iff cong: if_cong)

lemma firstAction_scratch [simp]:
  "firstAction (g\<lparr>projectedStrat := X\<rparr>) = firstAction g"
  "firstAction (g\<lparr>Pr := Y\<rparr>) = firstAction g"
  by (simp_all add: firstAction_def fun_eq_iff)

lemma doProjection_player_eq:
  "doProjection_player g Node i s =
     g\<lparr>projectedStrat := (projectedStrat g)[Node := (projectedStrat g ! Node)[i := projected g Node i s]]\<rparr>"
  by (simp add: doProjection_player_def projected_def cong: if_cong)

lemma doProjection_fold:
  assumes "Node < length (projectedStrat g)"
  shows "fold (\<lambda>i g'. doProjection_player g' Node i (drop (firstAction g' i) s)) is g =
     g\<lparr>projectedStrat := (projectedStrat g)[Node :=
         fold (\<lambda>i row. row[i := projected g Node i (drop (firstAction g i) s)]) is
           (projectedStrat g ! Node)]\<rparr>"
  using assms
proof (induction "is" arbitrary: g)
  case Nil
  then show ?case by simp
next
  case (Cons i rest)
  let ?row = "(projectedStrat g ! Node)[i := projected g Node i (drop (firstAction g i) s)]"
  let ?g1 = "g\<lparr>projectedStrat := (projectedStrat g)[Node := ?row]\<rparr>"
  have len: "Node < length (projectedStrat ?g1)" using Cons.prems by simp
  have row: "projectedStrat ?g1 ! Node = ?row" using Cons.prems by simp
  have "fold (\<lambda>i g'. doProjection_player g' Node i (drop (firstAction g' i) s)) (i # rest) g
      = fold (\<lambda>i g'. doProjection_player g' Node i (drop (firstAction g' i) s)) rest ?g1"
    by (simp add: doProjection_player_eq)
  also have "\<dots> = ?g1\<lparr>projectedStrat := (projectedStrat ?g1)[Node :=
         fold (\<lambda>i row. row[i := projected ?g1 Node i (drop (firstAction ?g1 i) s)]) rest
           (projectedStrat ?g1 ! Node)]\<rparr>"
    by (rule Cons.IH[OF len])
  also have "\<dots> = g\<lparr>projectedStrat := (projectedStrat g)[Node :=
         fold (\<lambda>i row. row[i := projected g Node i (drop (firstAction g i) s)]) (i # rest)
           (projectedStrat g ! Node)]\<rparr>"
    unfolding row by simp
  finally show ?case .
qed

lemma fold_row_length:
  "length (fold (\<lambda>i r. r[i := f i]) is row) = length row"
  by (induction "is" arbitrary: row) auto

lemma fold_row_nth:
  "m \<le> length row \<Longrightarrow>
   fold (\<lambda>i r. r[i := f i]) [0..<m] row ! q = (if q < m then f q else row ! q)"
proof (induction m)
  case 0
  then show ?case by simp
next
  case (Suc m)
  have "length (fold (\<lambda>i r. r[i := f i]) [0..<m] row) = length row"
    by (rule fold_row_length)
  with Suc show ?case by (auto simp: nth_list_update less_Suc_eq)
qed

lemma doProjection_eq:
  assumes "Node < length (projectedStrat g)"
  shows "doProjection g Node s =
     g\<lparr>projectedStrat := (projectedStrat g)[Node :=
         fold (\<lambda>i row. row[i := projected g Node i (drop (firstAction g i) s)]) [0..<numPlayers g]
           (projectedStrat g ! Node)]\<rparr>"
  unfolding doProjection_def by (rule doProjection_fold[OF assms])

lemma doProjection_nth:
  assumes "Node < length (projectedStrat g)" "numPlayers g \<le> length (projectedStrat g ! Node)"
    and "q < numPlayers g"
  shows "projectedStrat (doProjection g Node s) ! Node ! q
           = projected g Node q (drop (firstAction g q) s)"
  unfolding doProjection_eq[OF assms(1)] using assms by (simp add: fold_row_nth)

lemma fold_Pr_length:
  "length (fold (\<lambda>k P. P[k := F k P]) ks P0) = length P0"
  by (induction ks arbitrary: P0) auto

lemma fold_Pr_nth:
  assumes "m \<le> length P0" "k < m" "0 < m"
  shows "fold (\<lambda>k P. P[k := mul (P ! (k - 1)) (B k)]) [1..<m] P0 ! k
           = rec_nat (P0 ! 0) (\<lambda>k' c. mul c (B (Suc k'))) k"
  using assms
proof (induction m arbitrary: k)
  case 0
  then show ?case by simp
next
  case (Suc m)
  let ?F = "\<lambda>m. fold (\<lambda>k P. P[k := mul (P ! (k - 1)) (B k)]) [1..<m] P0"
  show ?case
  proof (cases "m = 0")
    case True
    with Suc.prems show ?thesis by simp
  next
    case False
    then have m: "0 < m" by simp
    have len: "length (?F m) = length P0" by (rule fold_Pr_length)
    have step: "?F (Suc m) = (?F m)[m := mul (?F m ! (m - 1)) (B m)]"
      using m by (simp add: upt_Suc)
    show ?thesis
    proof (cases "k < m")
      case True
      with Suc.IH[of k] Suc.prems m show ?thesis unfolding step by simp
    next
      case False
      with Suc.prems have km: "k = m" by simp
      from m obtain m' where m': "m = Suc m'" by (cases m) auto
      have "?F m ! (m - 1) = rec_nat (P0 ! 0) (\<lambda>k' c. mul c (B (Suc k'))) m'"
        using Suc.IH[of m'] Suc.prems m' by simp
      with Suc.prems len show ?thesis unfolding step km m' by simp
    qed
  qed
qed


lemma scratch_of_refl: "scratch_of g g"
  by (simp add: scratch_of_def)

lemma scratch_of_trans: "scratch_of g g1 \<Longrightarrow> scratch_of g1 g2 \<Longrightarrow> scratch_of g g2"
  unfolding scratch_of_def by (metis AGG.surjective AGG.update_convs(9) AGG.update_convs(12) AGG.select_convs)

lemma scratch_of_fields:
  assumes "scratch_of g g'"
  shows "numPlayers g' = numPlayers g" "numActionNodes g' = numActionNodes g"
    "actions g' = actions g" "strategyOffset g' = strategyOffset g"
    "actionSets g' = actionSets g" "neighbors g' = neighbors g" "payoffs g' = payoffs g"
    "projection g' = projection g" "projFunctions g' = projFunctions g" "Porder g' = Porder g"
  using assms unfolding scratch_of_def
  by (metis AGG.select_convs AGG.surjective AGG.update_convs(9) AGG.update_convs(12))+


lemma projected_cong_static:
  "scratch_of g g' \<Longrightarrow> projected g' = projected g"
  by (simp add: projected_def fun_eq_iff scratch_of_fields cong: if_cong)

lemma firstAction_static: "scratch_of g g' \<Longrightarrow> firstAction g' = firstAction g"
  by (simp add: firstAction_def fun_eq_iff scratch_of_fields)

lemma Pr_chain_static:
  "scratch_of g g' \<Longrightarrow> Pr_chain cmp g' p a s k = Pr_chain cmp g p a s k"
  by (induction k) (simp_all add: scratch_of_fields projected_cong_static firstAction_static)

lemma getV_value_static:
  "scratch_of g g' \<Longrightarrow> getV_value cmp g' p a s = getV_value cmp g p a s"
  by (simp add: getV_value_def Pr_chain_static scratch_of_fields)

lemma wf_AGG_scratch:
  assumes "wf_AGG g" "scratch_of g g'" "length (Pr g') = length (Pr g)"
    "length (projectedStrat g') = length (projectedStrat g)"
    "\<forall>v. length (projectedStrat g' ! v) = length (projectedStrat g ! v)"
  shows "wf_AGG g'"
  using assms(1) unfolding wf_AGG_def scratch_of_fields[OF assms(2)] assms(3,4) assms(5)[rule_format]
  by simp

lemma computeP_Pr:
  assumes "0 < numPlayers g" "numPlayers g \<le> length (Pr g)" "k < numPlayers g"
  shows "Pr (computeP cmp g p a (- 1) (- 1)) ! k =
     rec_nat (trie_insert [] (projection g ! nat (actionSets g ! p ! a) ! p ! a) 1)
       (\<lambda>k' c. multiply cmp c (projectedStrat g ! nat (actionSets g ! p ! a) ! (Porder g ! p ! a ! Suc k'))
                  (length (neighbors g ! nat (actionSets g ! p ! a)))
                  (projFunctions g ! nat (actionSets g ! p ! a))) k"
proof -
  let ?v = "nat (actionSets g ! p ! a)"
  let ?P0 = "(Pr g)[0 := trie_insert [] (projection g ! ?v ! p ! a) 1]"
  from assms have "0 < length (Pr g)" by linarith
  then have P0: "?P0 ! 0 = trie_insert [] (projection g ! ?v ! p ! a) 1"
    by simp
  have eq: "Pr (computeP cmp g p a (- 1) (- 1)) =
      fold (\<lambda>k P. P[k := multiply cmp (P ! (k - 1)) (projectedStrat g ! ?v ! (Porder g ! p ! a ! k))
                              (length (neighbors g ! ?v)) (projFunctions g ! ?v)])
        [1..<numPlayers g] ?P0"
    by (simp add: computeP_def Let_def)
  have len: "numPlayers g \<le> length ?P0" using assms by simp
  have "fold (\<lambda>k P. P[k := multiply cmp (P ! (k - 1)) (projectedStrat g ! ?v ! (Porder g ! p ! a ! k))
                              (length (neighbors g ! ?v)) (projFunctions g ! ?v)])
        [1..<numPlayers g] ?P0 ! k
      = rec_nat (?P0 ! 0)
          (\<lambda>k' c. multiply cmp c (projectedStrat g ! ?v ! (Porder g ! p ! a ! Suc k'))
                  (length (neighbors g ! ?v)) (projFunctions g ! ?v)) k"
    by (rule fold_Pr_nth[where mul = "\<lambda>c b. multiply cmp c b (length (neighbors g ! ?v)) (projFunctions g ! ?v)"
        and B = "\<lambda>k. projectedStrat g ! ?v ! (Porder g ! p ! a ! k)", OF len assms(3) assms(1)])
  then show ?thesis unfolding eq P0 .
qed

lemma computeP_scratch:
  "scratch_of g (computeP cmp g p a p2 a2)"
  "length (Pr (computeP cmp g p a p2 a2)) = length (Pr g)"
  "projectedStrat (computeP cmp g p a p2 a2) = projectedStrat g"
  by (simp_all add: computeP_def Let_def scratch_of_def fold_Pr_length)

lemma doProjection_scratch:
  assumes "Node < length (projectedStrat g)"
  shows "scratch_of g (doProjection g Node s)"
    "Pr (doProjection g Node s) = Pr g"
    "length (projectedStrat (doProjection g Node s)) = length (projectedStrat g)"
    "length (projectedStrat (doProjection g Node s) ! v) = length (projectedStrat g ! v)"
  unfolding doProjection_eq[OF assms]
  using assms by (simp_all add: scratch_of_def nth_list_update fold_row_length)

lemma wf_AGG_basic:
  assumes "wf_AGG g"
  shows "0 < numPlayers g" "length (actions g) = numPlayers g"
    "length (actionSets g) = numPlayers g" "length (Porder g) = numPlayers g"
    "length (Pr g) = numPlayers g" "length (strategyOffset g) = Suc (numPlayers g)"
    "numActionNodes g \<le> length (neighbors g)"
    "length (payoffs g) = numActionNodes g" "length (projection g) = numActionNodes g"
    "length (projectedStrat g) = numActionNodes g" "length (projFunctions g) = numActionNodes g"
  using assms unfolding wf_AGG_def by blast+

lemma wf_AGG_offset:
  "wf_AGG g \<Longrightarrow> p \<le> numPlayers g \<Longrightarrow> strategyOffset g ! p = sum_list (take p (actions g))"
  unfolding wf_AGG_def by blast

lemma wf_AGG_node:
  assumes "wf_AGG g" "v < numActionNodes g"
  shows "length (projection g ! v) = numPlayers g" "length (projectedStrat g ! v) = numPlayers g"
    "length (projFunctions g ! v) = length (neighbors g ! v)"
    "p < numPlayers g \<Longrightarrow> length (projection g ! v ! p) = actions g ! p"
    "p < numPlayers g \<Longrightarrow> a < actions g ! p \<Longrightarrow>
       length (projection g ! v ! p ! a) = length (neighbors g ! v)"
  using assms unfolding wf_AGG_def by blast+

lemma wf_AGG_action:
  assumes "wf_AGG g" "p < numPlayers g"
  shows "length (actionSets g ! p) = actions g ! p" "length (Porder g ! p) = actions g ! p"
    "a < actions g ! p \<Longrightarrow> 0 \<le> actionSets g ! p ! a"
    "a < actions g ! p \<Longrightarrow> actionSets g ! p ! a < int (numActionNodes g)"
    "a < actions g ! p \<Longrightarrow> nat (actionSets g ! p ! a) < numActionNodes g"
    "a < actions g ! p \<Longrightarrow> mset (Porder g ! p ! a) = mset [0..<numPlayers g]"
    "a < actions g ! p \<Longrightarrow> hd (Porder g ! p ! a) = p"
proof -
  from assms have *: "length (actionSets g ! p) = actions g ! p \<and>
        length (Porder g ! p) = actions g ! p \<and>
        (\<forall>a < actions g ! p.
           0 \<le> actionSets g ! p ! a \<and> actionSets g ! p ! a < int (numActionNodes g) \<and>
           mset (Porder g ! p ! a) = mset [0..<numPlayers g] \<and>
           hd (Porder g ! p ! a) = p)"
    unfolding wf_AGG_def by blast
  from * show "length (actionSets g ! p) = actions g ! p" "length (Porder g ! p) = actions g ! p"
    by blast+
  from * show "a < actions g ! p \<Longrightarrow> 0 \<le> actionSets g ! p ! a"
    "a < actions g ! p \<Longrightarrow> actionSets g ! p ! a < int (numActionNodes g)"
    "a < actions g ! p \<Longrightarrow> mset (Porder g ! p ! a) = mset [0..<numPlayers g]"
    "a < actions g ! p \<Longrightarrow> hd (Porder g ! p ! a) = p"
    by blast+
  then show "a < actions g ! p \<Longrightarrow> nat (actionSets g ! p ! a) < numActionNodes g"
    by linarith
qed

lemma getV_result:
  assumes wf: "wf_AGG g" and p: "p < numPlayers g" and a: "a < actions g ! p"
  shows "\<exists>g'. getV cmp g p a s = Inr (getV_value cmp g p a s, g')
            \<and> wf_AGG g' \<and> scratch_of g g'"
proof -
  let ?n = "numPlayers g"
  let ?v = "nat (actionSets g ! p ! a)"
  let ?g1 = "doProjection g ?v s"
  let ?g2 = "computeP cmp ?g1 p a (- 1) (- 1)"
  from wf p a have at: "p < length (actionSets g)" "a < length (actionSets g ! p)"
    by (simp_all add: wf_AGG_basic wf_AGG_action)
  from wf p a have v: "?v < numActionNodes g" by (rule wf_AGG_action)
  with wf have vl: "?v < length (projectedStrat g)" and row: "length (projectedStrat g ! ?v) = ?n"
    by (simp_all add: wf_AGG_basic wf_AGG_node)
  from wf have n: "0 < ?n" and prl: "length (Pr g) = ?n" by (simp_all add: wf_AGG_basic)
  have s1: "scratch_of g ?g1" by (rule doProjection_scratch[OF vl])
  have s2: "scratch_of ?g1 ?g2" by (rule computeP_scratch)
  have s: "scratch_of g ?g2" by (rule scratch_of_trans[OF s1 s2])
  have perm: "mset (Porder g ! p ! a) = mset [0..<?n]"
    using wf p a by (rule wf_AGG_action)
  then have plen: "length (Porder g ! p ! a) = ?n" by (metis length_upt mset_eq_length minus_nat.diff_0)
  have pin: "Porder g ! p ! a ! k < ?n" if "k < ?n" for k
  proof -
    from that plen have "Porder g ! p ! a ! k \<in> set (Porder g ! p ! a)" by simp
    also have "set (Porder g ! p ! a) = set [0..<?n]" using perm by (rule mset_eq_setD)
    finally show ?thesis by simp
  qed
  have chain: "rec_nat (trie_insert [] (projection g ! ?v ! p ! a) 1)
       (\<lambda>k' c. multiply cmp c (projectedStrat ?g1 ! ?v ! (Porder g ! p ! a ! Suc k'))
                  (length (neighbors g ! ?v)) (projFunctions g ! ?v)) k
      = Pr_chain cmp g p a s k" if "k < ?n" for k
    using that
  proof (induction k)
    case 0
    then show ?case by simp
  next
    case (Suc k)
    from Suc.prems have "Porder g ! p ! a ! Suc k < ?n" by (rule pin)
    then have "projectedStrat ?g1 ! ?v ! (Porder g ! p ! a ! Suc k)
        = projected g ?v (Porder g ! p ! a ! Suc k) (drop (firstAction g (Porder g ! p ! a ! Suc k)) s)"
      using doProjection_nth[OF vl, of "Porder g ! p ! a ! Suc k" s] row by simp
    with Suc show ?case by simp
  qed
  have "Pr ?g2 ! (?n - 1) = Pr_chain cmp g p a s (?n - 1)"
  proof -
    have "Pr ?g2 ! (?n - 1) = rec_nat (trie_insert [] (projection ?g1 ! nat (actionSets ?g1 ! p ! a) ! p ! a) 1)
       (\<lambda>k' c. multiply cmp c (projectedStrat ?g1 ! nat (actionSets ?g1 ! p ! a) ! (Porder ?g1 ! p ! a ! Suc k'))
                  (length (neighbors ?g1 ! nat (actionSets ?g1 ! p ! a)))
                  (projFunctions ?g1 ! nat (actionSets ?g1 ! p ! a))) (?n - 1)"
      using n prl by (intro computeP_Pr)
        (simp_all add: scratch_of_fields[OF s1] doProjection_scratch(2)[OF vl])
    also have "\<dots> = rec_nat (trie_insert [] (projection g ! ?v ! p ! a) 1)
       (\<lambda>k' c. multiply cmp c (projectedStrat ?g1 ! ?v ! (Porder g ! p ! a ! Suc k'))
                  (length (neighbors g ! ?v)) (projFunctions g ! ?v)) (?n - 1)"
      unfolding scratch_of_fields[OF s1] ..
    also have "\<dots> = Pr_chain cmp g p a s (?n - 1)"
      using n by (intro chain) simp
    finally show ?thesis .
  qed
  then have val: "getV cmp g p a s = Inr (getV_value cmp g p a s, ?g2)"
    using at by (simp add: getV_def Let_def getV_value_def scratch_of_fields[OF s])
  have "wf_AGG ?g2"
    by (rule wf_AGG_scratch[OF wf s])
       (simp_all add: computeP_scratch doProjection_scratch[OF vl])
  with val s show ?thesis by blast
qed


lemma getMixedPayoff_loop_result:
  assumes "wf_AGG g" "p < numPlayers g" "\<forall>act \<in> set acts. act < actions g ! p"
  shows "\<exists>g'. getMixedPayoff_loop cmp g p s acts r =
            Inr (r + sum_list (map (\<lambda>act. if s ! (act + firstAction g p) > 0
                                     then s ! (act + firstAction g p) * getV_value cmp g p act s
                                     else 0) acts), g')
          \<and> wf_AGG g' \<and> scratch_of g g'"
  using assms
proof (induction acts arbitrary: g r)
  case Nil
  then show ?case by (simp add: scratch_of_refl)
next
  case (Cons act rest)
  show ?case
  proof (cases "s ! (act + firstAction g p) > 0")
    case False
    with Cons.IH[of g r] Cons.prems show ?thesis by simp
  next
    case True
    from Cons.prems have a: "act < actions g ! p" by simp
    from getV_result[OF Cons.prems(1,2) a, of cmp s] obtain g1 where
      v: "getV cmp g p act s = Inr (getV_value cmp g p act s, g1)"
      and wf1: "wf_AGG g1" and s1: "scratch_of g g1" by blast
    have p1: "p < numPlayers g1" using Cons.prems(2) by (simp add: scratch_of_fields[OF s1])
    have r1: "\<forall>act \<in> set rest. act < actions g1 ! p"
      using Cons.prems(3) by (simp add: scratch_of_fields[OF s1])
    from Cons.IH[OF wf1 p1 r1, of "r + s ! (act + firstAction g p) * getV_value cmp g p act s"]
    obtain g' where
      l: "getMixedPayoff_loop cmp g1 p s rest (r + s ! (act + firstAction g p) * getV_value cmp g p act s)
          = Inr (r + s ! (act + firstAction g p) * getV_value cmp g p act s
                 + sum_list (map (\<lambda>act. if s ! (act + firstAction g1 p) > 0
                                     then s ! (act + firstAction g1 p) * getV_value cmp g1 p act s
                                     else 0) rest), g')"
      and wf': "wf_AGG g'" and s': "scratch_of g1 g'" by blast
    have "scratch_of g g'" by (rule scratch_of_trans[OF s1 s'])
    with True v l wf' show ?thesis
      by (auto simp: firstAction_static[OF s1] getV_value_static[OF s1] algebra_simps cong: if_cong)
  qed
qed

lemma wf_coordination_game: "wf_AGG coordination_game"
  unfolding wf_AGG_def coordination_game_def
  by (simp add: less_Suc_eq le_Suc_eq numeral_2_eq_2 all_conj_distrib)


text \<open>
  Claim C2: for a well-formed game, a player \<open>p\<close> and a mixed strategy profile \<open>s\<close> (no
  entry of the player's segment negative), \<open>getMixedPayoff\<close> returns exactly the sum over
  all actions \<open>a\<close> of \<open>p\<close> of \<open>s[p,a]\<close> times the value of \<open>getV(p, a, s)\<close>, although
  its loop skips the actions whose probability is not strictly positive.
\<close>

theorem getMixedPayoff_sum:
  assumes wf: "wf_AGG g" and p: "p < numPlayers g"
    and nonneg: "\<forall>a < actions g ! p. 0 \<le> s ! (a + firstAction g p)"
  shows "\<exists>g'. getMixedPayoff cmp g p s =
            Inr (\<Sum>a < actions g ! p. s ! (a + firstAction g p) * fst (projr (getV cmp g p a s)), g')"
proof -
  have acts: "\<forall>act \<in> set [0..<actions g ! p]. act < actions g ! p" by simp
  from getMixedPayoff_loop_result[OF wf p acts, of cmp s 0] obtain g' where
    l: "getMixedPayoff_loop cmp g p s [0..<actions g ! p] 0 =
         Inr (0 + sum_list (map (\<lambda>act. if s ! (act + firstAction g p) > 0
                                     then s ! (act + firstAction g p) * getV_value cmp g p act s
                                     else 0) [0..<actions g ! p]), g')" by blast
  have summand: "(if s ! (a + firstAction g p) > 0
         then s ! (a + firstAction g p) * getV_value cmp g p a s else 0)
       = s ! (a + firstAction g p) * fst (projr (getV cmp g p a s))" if "a < actions g ! p" for a
  proof -
    from getV_result[OF wf p that, of cmp s]
    have "fst (projr (getV cmp g p a s)) = getV_value cmp g p a s" by auto
    moreover from nonneg that have "0 \<le> s ! (a + firstAction g p)" by simp
    ultimately show ?thesis by auto
  qed
  have "sum_list (map (\<lambda>act. if s ! (act + firstAction g p) > 0
                                     then s ! (act + firstAction g p) * getV_value cmp g p act s
                                     else 0) [0..<actions g ! p])
      = sum_list (map (\<lambda>a. s ! (a + firstAction g p) * fst (projr (getV cmp g p a s)))
                    [0..<actions g ! p])"
    by (intro arg_cong[where f = sum_list] map_cong refl) (simp add: summand)
  also have "\<dots> = (\<Sum>a < actions g ! p. s ! (a + firstAction g p) * fst (projr (getV cmp g p a s)))"
    by (simp add: interv_sum_list_conv_sum_set_nat atLeast0LessThan)
  finally show ?thesis
    using l p by (simp add: getMixedPayoff_def)
qed


theorem getMixedPayoff_sum_witness:
  "(\<exists>g'. getMixedPayoff cmp_add coordination_game 0 [1 / 2, 1 / 2, 1, 0] =
      Inr (\<Sum>a < actions coordination_game ! 0.
             [1 / 2, 1 / 2, 1, 0] ! (a + firstAction coordination_game 0)
               * fst (projr (getV cmp_add coordination_game 0 a [1 / 2, 1 / 2, 1, 0])), g'))
   \<and> map_sum id fst (getMixedPayoff cmp_add coordination_game 0 [1 / 2, 1 / 2, 1, 0]) = Inr 1"
proof -
  have p: "0 < numPlayers coordination_game" by (simp add: coordination_game_def)
  have nonneg: "\<forall>a < actions coordination_game ! 0.
      0 \<le> [1 / 2, 1 / 2, 1, 0 :: AggNumber] ! (a + firstAction coordination_game 0)"
    by (simp add: coordination_game_def firstAction_def less_Suc_eq numeral_2_eq_2)
  have e: "map_sum id fst (getMixedPayoff cmp_add coordination_game 0 [1 / 2, 1 / 2, 1, 0]) = Inr 1"
    by code_simp
  from getMixedPayoff_sum[OF wf_coordination_game p nonneg, of cmp_add] e
  show ?thesis by blast
qed

section \<open>Oracle calls on invalid profiles\<close>

lemma projected_cong:
  assumes "\<forall>j < actions g ! i. (s' ! j > 0 \<longleftrightarrow> s ! j > 0) \<and> (s ! j > 0 \<longrightarrow> s' ! j = s ! j)"
  shows "projected g Node i s' = projected g Node i s"
  unfolding projected_def
  by (rule fold_cong) (use assms in auto)

lemma sum_list_take_le:
  fixes xs :: "nat list"
  shows "sum_list (take k xs) \<le> sum_list xs"
  by (metis append_take_drop_id le_add1 sum_list_append)

lemma sum_list_take_Suc:
  fixes xs :: "nat list"
  shows "i < length xs \<Longrightarrow> sum_list (take (Suc i) xs) = sum_list (take i xs) + xs ! i"
  by (simp add: take_Suc_conv_app_nth)

lemma clean_profile_nth:
  assumes wf: "wf_AGG g" and i: "i < numPlayers g" and j: "j < actions g ! i"
    and len: "sum_list (actions g) \<le> length s"
  shows "drop (firstAction g i) (clean_profile g s) ! j = max 0 (drop (firstAction g i) s ! j)"
proof -
  have off: "firstAction g i = sum_list (take i (actions g))"
    using wf_AGG_offset[OF wf, of i] i by (simp add: firstAction_def)
  have il: "i < length (actions g)" using wf i by (simp add: wf_AGG_basic)
  have "sum_list (take (Suc i) (actions g)) \<le> sum_list (actions g)" by (rule sum_list_take_le)
  with sum_list_take_Suc[OF il] j off have lt: "firstAction g i + j < sum_list (actions g)"
    by simp
  with len have lt': "firstAction g i + j < length s" by simp
  have "drop (firstAction g i) (clean_profile g s) ! j = clean_profile g s ! (firstAction g i + j)"
    using lt len by (intro nth_drop) (simp add: clean_profile_def)
  also have "\<dots> = max 0 (s ! (firstAction g i + j))"
    using lt lt' by (simp add: clean_profile_def)
  also have "\<dots> = max 0 (drop (firstAction g i) s ! j)"
    using lt' by simp
  finally show ?thesis .
qed

lemma doProjection_clean:
  assumes wf: "wf_AGG g" and v: "Node < numActionNodes g"
    and len: "sum_list (actions g) \<le> length s"
  shows "doProjection g Node (clean_profile g s) = doProjection g Node s"
proof -
  from wf v have vl: "Node < length (projectedStrat g)" by (simp add: wf_AGG_basic)
  have "projected g Node i (drop (firstAction g i) (clean_profile g s))
      = projected g Node i (drop (firstAction g i) s)" if "i < numPlayers g" for i
    by (rule projected_cong) (auto simp: clean_profile_nth[OF wf that _ len] max_def)
  then have "fold (\<lambda>i row. row[i := projected g Node i (drop (firstAction g i) (clean_profile g s))])
        [0..<numPlayers g] (projectedStrat g ! Node)
      = fold (\<lambda>i row. row[i := projected g Node i (drop (firstAction g i) s)])
        [0..<numPlayers g] (projectedStrat g ! Node)"
    by (intro fold_cong refl) simp
  then show ?thesis unfolding doProjection_eq[OF vl] by simp
qed

lemma getV_clean:
  assumes wf: "wf_AGG g" and p: "p < numPlayers g" and a: "a < actions g ! p"
    and len: "sum_list (actions g) \<le> length s"
  shows "getV cmp g p a (clean_profile g s) = getV cmp g p a s"
proof -
  from wf p a have "nat (actionSets g ! p ! a) < numActionNodes g" by (rule wf_AGG_action)
  from doProjection_clean[OF wf this len] show ?thesis
    by (simp add: getV_def)
qed

lemma getPayoffVector_loop_result:
  assumes "wf_AGG g" "p < numPlayers g" "\<forall>act \<in> set acts. act < actions g ! p"
  shows "\<exists>vs g'. getPayoffVector_loop cmp g p s acts dest = Inr (vs, g')"
  using assms
proof (induction acts arbitrary: g dest)
  case Nil
  then show ?case by simp
next
  case (Cons act rest)
  from Cons.prems have a: "act < actions g ! p" by simp
  from getV_result[OF Cons.prems(1,2) a, of cmp s] obtain g1 where
    v: "getV cmp g p act s = Inr (getV_value cmp g p act s, g1)"
    and wf1: "wf_AGG g1" and s1: "scratch_of g g1" by blast
  have p1: "p < numPlayers g1" using Cons.prems(2) by (simp add: scratch_of_fields[OF s1])
  have r1: "\<forall>act \<in> set rest. act < actions g1 ! p"
    using Cons.prems(3) by (simp add: scratch_of_fields[OF s1])
  from Cons.IH[OF wf1 p1 r1] v show ?case by simp
qed


text \<open>
  Claim C5, as the code has it: no oracle call validates the profile.  On a well-formed
  game, for a player and an action in range and any profile that has at least as many
  entries as the game has actions, \<open>getV\<close>, \<open>getMixedPayoff\<close> and \<open>getPayoffVector\<close>
  return a value and raise nothing (\<open>getJ\<close> has no failing path at all), and the result of
  \<open>getV\<close> is the one for the profile cut to the game's dimension with its negative
  entries replaced by zero.  A profile with fewer entries is read outside its bounds.
\<close>

theorem oracle_no_validation:
  assumes wf: "wf_AGG g" and p: "p < numPlayers g" and a: "a < actions g ! p"
    and len: "sum_list (actions g) \<le> length s"
  shows "(\<exists>v g'. getV cmp g p a s = Inr (v, g'))
       \<and> (\<exists>v g'. getMixedPayoff cmp g p s = Inr (v, g'))
       \<and> (\<exists>vs g'. getPayoffVector cmp g dest p s = Inr (vs, g'))
       \<and> getV cmp g p a s = getV cmp g p a (clean_profile g s)"
proof (intro conjI)
  from getV_result[OF wf p a, of cmp s] show "\<exists>v g'. getV cmp g p a s = Inr (v, g')" by blast
  have acts: "\<forall>act \<in> set [0..<actions g ! p]. act < actions g ! p" by simp
  from getMixedPayoff_loop_result[OF wf p acts, of cmp s 0] p
  show "\<exists>v g'. getMixedPayoff cmp g p s = Inr (v, g')"
    by (auto simp: getMixedPayoff_def)
  from getPayoffVector_loop_result[OF wf p acts, of cmp s dest] p
  show "\<exists>vs g'. getPayoffVector cmp g dest p s = Inr (vs, g')"
    by (auto simp: getPayoffVector_def)
  show "getV cmp g p a s = getV cmp g p a (clean_profile g s)"
    by (rule getV_clean[OF wf p a len, symmetric])
qed


theorem oracle_no_validation_witness:
  "(\<exists>v g'. getV cmp_add coordination_game 0 0 [1, - 1, 1 / 2, 1 / 2, 9] = Inr (v, g'))
   \<and> getV cmp_add coordination_game 0 0 [1, - 1, 1 / 2, 1 / 2, 9]
       = getV cmp_add coordination_game 0 0 (clean_profile coordination_game [1, - 1, 1 / 2, 1 / 2, 9])
   \<and> clean_profile coordination_game [1, - 1, 1 / 2, 1 / 2, 9] = [1, 0, 1 / 2, 1 / 2]"
proof -
  have p: "0 < numPlayers coordination_game" "0 < actions coordination_game ! 0"
    by (simp_all add: coordination_game_def)
  have len: "sum_list (actions coordination_game) \<le> length [1, - 1, 1 / 2, 1 / 2, 9 :: AggNumber]"
    by (simp add: coordination_game_def)
  have c: "clean_profile coordination_game [1, - 1, 1 / 2, 1 / 2, 9] = [1, 0, 1 / 2, 1 / 2]"
    by (simp add: clean_profile_def coordination_game_def)
  from oracle_no_validation[OF wf_coordination_game p len, of cmp_add] c
  show ?thesis by blast
qed

text \<open>
  The claim as stated fails: a profile with a negative probability, and one with more
  entries than the game has actions, are answered with a value, not with an error.
\<close>

theorem oracle_accepts_invalid_profile:
  "map_sum id fst (getV cmp_add coordination_game 0 0 [1, - 1, 1 / 2, 1 / 2]) = Inr 1
   \<and> map_sum id fst (getV cmp_add coordination_game 0 0 [1, 0, 1 / 2, 1 / 2, 9]) = Inr 1
   \<and> map_sum id fst (getMixedPayoff cmp_add coordination_game 0 [1, - 1, 1 / 2, 1 / 2]) = Inr 1
   \<and> map_sum id fst (getPayoffVector cmp_add coordination_game [0, 0] 0 [1, - 1, 1 / 2, 1 / 2])
       = Inr [1, 1]
   \<and> fst (getJ cmp_add coordination_game 0 0 1 1 [1, - 1, 1 / 2, 1 / 2]) = 0"
  by code_simp

section \<open>The largest and the smallest payoff\<close>

text \<open>
  Claim C10 does not hold of the code: only the first entry of the table of action node 0
  takes part.  In the coordination game with the payoffs of node 0 changed to 0, -3 and 5,
  the largest payoff is 5 and the smallest is -3, and the two functions return 2 and 0.
\<close>

theorem getMaxPayoff_skips_node0_entries:
  "getMaxPayoff (coordination_game\<lparr>payoffs := [[([0, 2], 0), ([1, 1], - 3), ([2, 0], 5)],
                                               [([0, 2], 2), ([1, 1], 0), ([2, 0], 0)]]\<rparr>) = Inr 2
   \<and> getMinPayoff (coordination_game\<lparr>payoffs := [[([0, 2], 0), ([1, 1], - 3), ([2, 0], 5)],
                                               [([0, 2], 2), ([1, 1], 0), ([2, 0], 0)]]\<rparr>) = Inr 0"
  by (simp add: getMaxPayoff_def getMinPayoff_def coordination_game_def upt_rec numeral_2_eq_2)

section \<open>Pure payoffs and mixed payoffs of degenerate profiles\<close>











lemma compose_keys_length [simp]: "length (compose_keys cmp pf m ka kb) = m"
  by (simp add: compose_keys_def)

lemma fold_compose_length:
  "length k0 = m \<Longrightarrow> length (fold (\<lambda>i prof. compose_keys cmp pf m prof (x i)) is k0) = m"
  by (induction "is" arbitrary: k0) auto
















lemma keys_Nil [simp]: "keys [] = {}"
  by (simp add: keys_def)

lemma keys_Cons [simp]: "keys ((k, v) # t) = insert k (keys t)"
  by (simp add: keys_def)

lemma keys_trie_insert [simp]: "keys (trie_insert t k v) = insert k (keys t)"
  unfolding keys_def by (rule trie_insert_keys)

lemma keys_trie_add [simp]: "keys (trie_add t k w) = insert k (keys t)"
proof (induction t)
  case Nil
  then show ?case by simp
next
  case (Cons a t)
  obtain k' w' where a: "a = (k', w')" by (cases a)
  show ?case
  proof (cases "k = k'")
    case True
    then show ?thesis by (simp add: a)
  next
    case False
    with Cons show ?thesis by (auto simp add: a)
  qed
qed





























end
